theory Spec2Isabelle
  imports Complex_Main "HOL-Library.Multiset"
begin

section \<open>The range aggregator of \<^verbatim>\<open>src/process/aggregator.ts\<close>\<close>

text \<open>
  The class \<^verbatim>\<open>Aggregator\<close> decomposes a list of possibly overlapping numeric
  ranges into disjoint spans and aggregates, for every span, the values of the ranges
  that are open over it.  Coordinates are JavaScript numbers; the code only compares
  them, so a finite coordinate is modelled as a \<^typ>\<open>real\<close> (\<^verbatim>\<open>NaN\<close> is not a
  coordinate of the model).  A callback that throws returns \<open>Inl\<close> of the thrown value.
\<close>

subsection \<open>Blocks, node values and the instance\<close>

text \<open>\<^verbatim>\<open>interface Block { start: number, end: number, value: any }\<close>\<close>

record 'v Block =
  block_start :: real
  block_end :: real
  block_value :: 'v

text \<open>
  \<^verbatim>\<open>interface NodeValue { start: Array<{[key: number]: any}>, end: Array<number> }\<close>.
  An element \<^verbatim>\<open>{[i]: value}\<close> of \<^verbatim>\<open>start\<close> is an object with the single
  property \<open>i\<close>; it is the pair \<open>(i, value)\<close>.
\<close>

record 'v NodeValue =
  nv_start :: "(nat \<times> 'v) list"
  nv_end :: "nat list"

text \<open>The three read-only fields of an instance, set once by the constructor.\<close>

record ('i, 'v, 'w, 'r, 'e) Aggregator =
  itemPreProcessor :: "'i \<Rightarrow> 'e + 'v Block"
  aggregationFunction :: "'v list \<Rightarrow> 'e + 'w"
  itemPostProcessor :: "'w Block \<Rightarrow> 'e + 'r"

text \<open>
  The only effects of \<^verbatim>\<open>aggregate\<close> besides its result are the calls of the three
  callbacks.  The model records them, in the order they are made, in a log that is
  passed along: the log on entry is the history before the call.
\<close>

datatype ('i, 'v, 'w) Call =
  PreCall 'i
| AggCall "'v list"
| PostCall "'w Block"

subsection \<open>The ordered map\<close>

text \<open>
  The tree comes from the package \<^verbatim>\<open>functional-red-black-tree\<close>, which is imported
  and not part of \<^verbatim>\<open>src/\<close>.  The specification asks of it "a generic balanced
  ordered-map primitive supporting ascending iteration, and get/insert/remove by key".
  A tree is modelled as the list of its entries in ascending key order, which is what
  its iterator visits.  The code removes a key before it inserts it, so no key occurs
  twice, as is proved for the tree that is built below.
\<close>

type_synonym 'a Tree = "(real \<times> 'a) list"

text \<open>Modelled from the spec: \<^verbatim>\<open>createRBTree()\<close>, the empty ordered map.\<close>

definition createRBTree :: "'a Tree" where
  "createRBTree = []"

text \<open>
  Modelled from the spec: \<^verbatim>\<open>tree.get(key)\<close>, the value of an entry with the key,
  \<^verbatim>\<open>undefined\<close> (\<open>None\<close>) when there is none.
\<close>

fun rb_get :: "'a Tree \<Rightarrow> real \<Rightarrow> 'a option" where
  "rb_get [] key = None"
| "rb_get ((k, v) # t) key = (if key = k then Some v else rb_get t key)"

text \<open>
  Modelled from the spec: \<^verbatim>\<open>tree.remove(key)\<close>, the tree without one entry with the
  key, the tree as it is when there is none.
\<close>

fun rb_remove :: "'a Tree \<Rightarrow> real \<Rightarrow> 'a Tree" where
  "rb_remove [] key = []"
| "rb_remove ((k, v) # t) key = (if key = k then t else (k, v) # rb_remove t key)"

text \<open>
  Modelled from the spec: \<^verbatim>\<open>tree.insert(key, value)\<close>, the tree with a further entry
  at its place in the key order.
\<close>

fun rb_insert :: "'a Tree \<Rightarrow> real \<Rightarrow> 'a \<Rightarrow> 'a Tree" where
  "rb_insert [] key v = [(key, v)]"
| "rb_insert ((k, w) # t) key v =
     (if key \<le> k then (key, v) # (k, w) # t else (k, w) # rb_insert t key v)"

subsection \<open>The active set: a JavaScript \<^verbatim>\<open>Map<number, any>\<close>\<close>

text \<open>
  A \<^verbatim>\<open>Map\<close> keeps its entries in insertion order.  \<^verbatim>\<open>set\<close> on a key that is
  present replaces the value where the entry stands, on a new key it appends the entry;
  \<^verbatim>\<open>delete\<close> removes the entry if there is one; \<^verbatim>\<open>values()\<close> lists the values
  in entry order.
\<close>

type_synonym 'v NodeValues = "(nat \<times> 'v) list"

fun map_set :: "'v NodeValues \<Rightarrow> nat \<Rightarrow> 'v \<Rightarrow> 'v NodeValues" where
  "map_set [] key v = [(key, v)]"
| "map_set ((k, w) # m) key v =
     (if k = key then (k, v) # m else (k, w) # map_set m key v)"

fun map_delete :: "'v NodeValues \<Rightarrow> nat \<Rightarrow> 'v NodeValues" where
  "map_delete [] key = []"
| "map_delete ((k, w) # m) key = (if k = key then m else (k, w) # map_delete m key)"

definition map_size :: "'v NodeValues \<Rightarrow> nat" where
  "map_size m = length m"

definition map_values :: "'v NodeValues \<Rightarrow> 'v list" where
  "map_values m = map snd m"

subsection \<open>Building the tree\<close>

text \<open>\<^verbatim>\<open>emptyNodeValue\<close>: two fresh empty arrays.\<close>

definition emptyNodeValue :: "'v NodeValue" where
  "emptyNodeValue = \<lparr>nv_start = [], nv_end = []\<rparr>"

text \<open>
  The last two parameters of \<^verbatim>\<open>pushValueToNode\<close>, the value and the name of the
  property it is pushed onto, are one argument: \<^verbatim>\<open>'start'\<close> comes with
  \<^verbatim>\<open>{[i]: block.value}\<close>, \<^verbatim>\<open>'end'\<close> with \<^verbatim>\<open>i\<close>.
\<close>

datatype 'v Pushed =
  PushStart "nat \<times> 'v"
| PushEnd nat

definition pushValueToNode :: "'v NodeValue Tree \<Rightarrow> real \<Rightarrow> 'v Pushed \<Rightarrow> 'v NodeValue Tree" where
  "pushValueToNode tree key pushed =
     (let nodeValue = (case rb_get tree key of None \<Rightarrow> emptyNodeValue | Some nv \<Rightarrow> nv);
          nodeValue' = (case pushed of
                          PushStart val \<Rightarrow> nodeValue\<lparr>nv_start := nv_start nodeValue @ [val]\<rparr>
                        | PushEnd i \<Rightarrow> nodeValue\<lparr>nv_end := nv_end nodeValue @ [i]\<rparr>)
      in rb_insert (rb_remove tree key) key nodeValue')"

text \<open>
  The loop \<^verbatim>\<open>for (const [i, item] of items.entries())\<close> of
  \<^verbatim>\<open>createRedBlackTree\<close>, from index \<open>i\<close> on.  A throwing pre-processor ends it.
\<close>

fun createRedBlackTree_loop ::
  "('i, 'v, 'w, 'r, 'e) Aggregator \<Rightarrow> nat \<Rightarrow> 'i list \<Rightarrow> 'v NodeValue Tree \<Rightarrow>
   ('i, 'v, 'w) Call list \<Rightarrow> ('i, 'v, 'w) Call list \<times> ('e + 'v NodeValue Tree)" where
  "createRedBlackTree_loop a i [] redBlackTree hist = (hist, Inr redBlackTree)"
| "createRedBlackTree_loop a i (item # items) redBlackTree hist =
     (case itemPreProcessor a item of
        Inl e \<Rightarrow> (hist @ [PreCall item], Inl e)
      | Inr block \<Rightarrow>
          (let t1 = pushValueToNode redBlackTree (block_start block)
                      (PushStart (i, block_value block));
               t2 = pushValueToNode t1 (block_end block) (PushEnd i)
           in createRedBlackTree_loop a (Suc i) items t2 (hist @ [PreCall item])))"

definition createRedBlackTree ::
  "('i, 'v, 'w, 'r, 'e) Aggregator \<Rightarrow> 'i list \<Rightarrow> ('i, 'v, 'w) Call list \<Rightarrow>
   ('i, 'v, 'w) Call list \<times> ('e + 'v NodeValue Tree)" where
  "createRedBlackTree a items hist = createRedBlackTree_loop a 0 items createRBTree hist"

subsection \<open>The scan\<close>

text \<open>
  The two \<^verbatim>\<open>forEach\<close> loops over the node at the iterator: every \<^verbatim>\<open>{[i]: value}\<close>
  of \<^verbatim>\<open>start\<close> is set in the map, then every index of \<^verbatim>\<open>end\<close> is deleted.
\<close>

definition applyNode :: "'v NodeValues \<Rightarrow> 'v NodeValue \<Rightarrow> 'v NodeValues" where
  "applyNode nodeValues nv =
     foldl map_delete (foldl (\<lambda>m (key, v). map_set m key v) nodeValues (nv_start nv)) (nv_end nv)"

text \<open>
  The \<^verbatim>\<open>while (iterator.hasNext)\<close> loop.  The iterator is the list of the entries
  from its position on; \<^verbatim>\<open>hasNext\<close> holds when an entry follows the one it is at, so
  the body never runs at the last entry (and not at all on an empty tree).  After
  \<^verbatim>\<open>iterator.next()\<close> the key read for \<^verbatim>\<open>end\<close> is the key of the following entry.
\<close>

fun aggregate_loop ::
  "('i, 'v, 'w, 'r, 'e) Aggregator \<Rightarrow> 'v NodeValue Tree \<Rightarrow> 'v NodeValues \<Rightarrow> 'r list \<Rightarrow>
   ('i, 'v, 'w) Call list \<Rightarrow> ('i, 'v, 'w) Call list \<times> ('e + 'r list)" where
  "aggregate_loop a [] nodeValues output hist = (hist, Inr output)"
| "aggregate_loop a [n] nodeValues output hist = (hist, Inr output)"
| "aggregate_loop a ((start, v) # (next, v') # rest) nodeValues output hist =
     (let nodeValues' = applyNode nodeValues v
      in if map_size nodeValues' = 0
         then aggregate_loop a ((next, v') # rest) nodeValues' output hist
         else
           (case aggregationFunction a (map_values nodeValues') of
              Inl e \<Rightarrow> (hist @ [AggCall (map_values nodeValues')], Inl e)
            | Inr aggregated \<Rightarrow>
                (let block = \<lparr>block_start = start, block_end = next, block_value = aggregated\<rparr>;
                     hist' = hist @ [AggCall (map_values nodeValues'), PostCall block]
                 in case itemPostProcessor a block of
                      Inl e \<Rightarrow> (hist', Inl e)
                    | Inr r \<Rightarrow> aggregate_loop a ((next, v') # rest) nodeValues' (output @ [r]) hist')))"

text \<open>
  \<^verbatim>\<open>aggregate\<close>: a new output array and a new map, the tree of the items, the scan.
\<close>

definition aggregate ::
  "('i, 'v, 'w, 'r, 'e) Aggregator \<Rightarrow> 'i list \<Rightarrow> ('i, 'v, 'w) Call list \<Rightarrow>
   ('i, 'v, 'w) Call list \<times> ('e + 'r list)" where
  "aggregate a items hist =
     (case createRedBlackTree a items hist of
        (hist', Inl e) \<Rightarrow> (hist', Inl e)
      | (hist', Inr redBlackTree) \<Rightarrow> aggregate_loop a redBlackTree [] [] hist')"

section \<open>The same code over an explicit store\<close>

text \<open>
  The objects that \<^verbatim>\<open>aggregate\<close> creates and changes in place are the node values
  (\<^verbatim>\<open>nodeValue[property].push(value)\<close>), the map (\<^verbatim>\<open>set\<close>, \<^verbatim>\<open>delete\<close>) and the
  output array (\<^verbatim>\<open>output.push\<close>).  Objects outlive the call that creates them, so what
  one call leaves behind can only be seen in a model that keeps them.  Here they live in a
  store, one list for each kind of object; a reference is an index into its list, and
  \<^verbatim>\<open>new\<close> appends an object and returns its index.  The tree holds references to node
  values, as the persistent tree of the code does; a reference it holds is an index
  below the length of the list of node values, so every read through it is in range.
  The instance has read-only
  fields only and no static field, so no other object is written by a call.
  The functions below are the functions above with every object read and written through
  the store; they make no log.
\<close>

record ('v, 'r) Store =
  nodes :: "'v NodeValue list"
  maps :: "'v NodeValues list"
  arrays :: "'r list list"

text \<open>\<^verbatim>\<open>emptyNodeValue\<close>: a new node value object with two empty arrays.\<close>

definition emptyNodeValue_store :: "('v, 'r) Store \<Rightarrow> nat \<times> ('v, 'r) Store" where
  "emptyNodeValue_store s =
     (length (nodes s), s\<lparr>nodes := nodes s @ [\<lparr>nv_start = [], nv_end = []\<rparr>]\<rparr>)"

text \<open>
  \<^verbatim>\<open>pushValueToNode\<close>: \<^verbatim>\<open>tree.get(key)\<close> yields the reference of the node value or
  \<^verbatim>\<open>undefined\<close>, in which case a new object is created; the push changes that object
  where it is; the tree returned holds the reference under the key.
\<close>

definition pushValueToNode_store ::
  "('v, 'r) Store \<Rightarrow> nat Tree \<Rightarrow> real \<Rightarrow> 'v Pushed \<Rightarrow> nat Tree \<times> ('v, 'r) Store" where
  "pushValueToNode_store s tree key pushed =
     (let (nodeValue, s1) = (case rb_get tree key of
                               None \<Rightarrow> emptyNodeValue_store s
                             | Some p \<Rightarrow> (p, s));
          obj = nodes s1 ! nodeValue;
          obj' = (case pushed of
                    PushStart val \<Rightarrow> obj\<lparr>nv_start := nv_start obj @ [val]\<rparr>
                  | PushEnd i \<Rightarrow> obj\<lparr>nv_end := nv_end obj @ [i]\<rparr>)
      in (rb_insert (rb_remove tree key) key nodeValue,
          s1\<lparr>nodes := (nodes s1)[nodeValue := obj']\<rparr>))"

text \<open>The loop of \<^verbatim>\<open>createRedBlackTree\<close>, and the function itself.\<close>

fun createRedBlackTree_loop_store ::
  "('i, 'v, 'w, 'r, 'e) Aggregator \<Rightarrow> nat \<Rightarrow> 'i list \<Rightarrow> nat Tree \<Rightarrow> ('v, 'r) Store \<Rightarrow>
   ('v, 'r) Store \<times> ('e + nat Tree)" where
  "createRedBlackTree_loop_store a i [] redBlackTree s = (s, Inr redBlackTree)"
| "createRedBlackTree_loop_store a i (item # items) redBlackTree s =
     (case itemPreProcessor a item of
        Inl e \<Rightarrow> (s, Inl e)
      | Inr block \<Rightarrow>
          (let (t1, s1) = pushValueToNode_store s redBlackTree (block_start block)
                            (PushStart (i, block_value block));
               (t2, s2) = pushValueToNode_store s1 t1 (block_end block) (PushEnd i)
           in createRedBlackTree_loop_store a (Suc i) items t2 s2))"

definition createRedBlackTree_store ::
  "('i, 'v, 'w, 'r, 'e) Aggregator \<Rightarrow> 'i list \<Rightarrow> ('v, 'r) Store \<Rightarrow>
   ('v, 'r) Store \<times> ('e + nat Tree)" where
  "createRedBlackTree_store a items s = createRedBlackTree_loop_store a 0 items createRBTree s"

text \<open>
  The loop of \<^verbatim>\<open>aggregate\<close>: \<open>nodeValues\<close> and \<open>output\<close> are the references of the
  map and of the output array.  The two \<^verbatim>\<open>forEach\<close> loops change the map where it is,
  \<^verbatim>\<open>output.push\<close> the array; the function returns the reference \<open>output\<close>.
\<close>

fun aggregate_loop_store ::
  "('i, 'v, 'w, 'r, 'e) Aggregator \<Rightarrow> nat Tree \<Rightarrow> nat \<Rightarrow> nat \<Rightarrow> ('v, 'r) Store \<Rightarrow>
   ('v, 'r) Store \<times> ('e + nat)" where
  "aggregate_loop_store a [] nodeValues output s = (s, Inr output)"
| "aggregate_loop_store a [n] nodeValues output s = (s, Inr output)"
| "aggregate_loop_store a ((start, p) # (next, p') # rest) nodeValues output s =
     (let s1 = s\<lparr>maps := (maps s)[nodeValues := applyNode (maps s ! nodeValues) (nodes s ! p)]\<rparr>
      in if map_size (maps s1 ! nodeValues) = 0
         then aggregate_loop_store a ((next, p') # rest) nodeValues output s1
         else
           (case aggregationFunction a (map_values (maps s1 ! nodeValues)) of
              Inl e \<Rightarrow> (s1, Inl e)
            | Inr aggregated \<Rightarrow>
                (case itemPostProcessor a
                        \<lparr>block_start = start, block_end = next, block_value = aggregated\<rparr> of
                   Inl e \<Rightarrow> (s1, Inl e)
                 | Inr r \<Rightarrow>
                     aggregate_loop_store a ((next, p') # rest) nodeValues output
                       (s1\<lparr>arrays := (arrays s1)[output := arrays s1 ! output @ [r]]\<rparr>))))"

text \<open>
  \<^verbatim>\<open>aggregate\<close>: \<^verbatim>\<open>new Array\<close>, \<^verbatim>\<open>new Map\<close>, the tree of the items, the scan.
\<close>

definition aggregate_store ::
  "('i, 'v, 'w, 'r, 'e) Aggregator \<Rightarrow> 'i list \<Rightarrow> ('v, 'r) Store \<Rightarrow> ('v, 'r) Store \<times> ('e + nat)" where
  "aggregate_store a items s =
     (let output = length (arrays s);
          s1 = s\<lparr>arrays := arrays s @ [[]]\<rparr>;
          nodeValues = length (maps s1);
          s2 = s1\<lparr>maps := maps s1 @ [[]]\<rparr>
      in case createRedBlackTree_store a items s2 of
           (s3, Inl e) \<Rightarrow> (s3, Inl e)
         | (s3, Inr redBlackTree) \<Rightarrow> aggregate_loop_store a redBlackTree nodeValues output s3)"

section \<open>Notions used to state the properties\<close>

subsection \<open>Reading the log\<close>

text \<open>
  The emitted blocks: the arguments of the post-processor calls, in call order; and the
  value lists handed to the aggregation function, in call order.
\<close>

definition emitted :: "('i, 'v, 'w) Call list \<Rightarrow> 'w Block list" where
  "emitted hist = concat (map (\<lambda>c. case c of PostCall b \<Rightarrow> [b] | _ \<Rightarrow> []) hist)"

definition aggregated :: "('i, 'v, 'w) Call list \<Rightarrow> 'v list list" where
  "aggregated hist = concat (map (\<lambda>c. case c of AggCall vs \<Rightarrow> [vs] | _ \<Rightarrow> []) hist)"

subsection \<open>Callbacks that never throw\<close>

text \<open>An instance whose three callbacks are total functions.\<close>

definition pureAggregator ::
  "('i \<Rightarrow> 'v Block) \<Rightarrow> ('v list \<Rightarrow> 'w) \<Rightarrow> ('w Block \<Rightarrow> 'r) \<Rightarrow> ('i, 'v, 'w, 'r, 'e) Aggregator" where
  "pureAggregator pre agg post =
     \<lparr>itemPreProcessor = (\<lambda>item. Inr (pre item)),
      aggregationFunction = (\<lambda>vs. Inr (agg vs)),
      itemPostProcessor = (\<lambda>b. Inr (post b))\<rparr>"

subsection \<open>The map after every node\<close>

text \<open>
  The states of the map of \<^verbatim>\<open>aggregate\<close> along a list of nodes: the map after the
  first node has been applied to \<open>m\<close>, after the second has been applied to that, and
  so on.
\<close>

fun activeSets :: "'v NodeValues \<Rightarrow> 'v NodeValue list \<Rightarrow> 'v NodeValues list" where
  "activeSets m [] = []"
| "activeSets m (nv # nvs) = applyNode m nv # activeSets (applyNode m nv) nvs"

subsection \<open>The spans of a scan and what the callbacks do on them\<close>

text \<open>
  The spans that the scan of a tree comes to: for every key that has a following key and
  after whose node the map is not empty, the two keys and the values of the map.  They
  depend on the tree only, not on the callbacks.
\<close>

definition scanSpans :: "'v NodeValue Tree \<Rightarrow> (real \<times> real \<times> 'v list) list" where
  "scanSpans t =
     map (\<lambda>((k, k'), m). (k, k', map_values m))
       (filter (\<lambda>(kk, m). map_size m \<noteq> 0)
          (zip (zip (map fst t) (tl (map fst t))) (activeSets [] (map snd t))))"

text \<open>
  What the callbacks return on a span, the aggregation function on its values and the
  post-processor on the block of its result: an exception if either raises.  And the
  calls that this makes: the post-processor is called only if the aggregation function
  has returned.
\<close>

definition spanResult ::
  "('i, 'v, 'w, 'r, 'e) Aggregator \<Rightarrow> real \<times> real \<times> 'v list \<Rightarrow> 'e + 'r" where
  "spanResult a = (\<lambda>(k, k', vs).
     case aggregationFunction a vs of
       Inl e \<Rightarrow> Inl e
     | Inr w \<Rightarrow> itemPostProcessor a \<lparr>block_start = k, block_end = k', block_value = w\<rparr>)"

definition spanCalls ::
  "('i, 'v, 'w, 'r, 'e) Aggregator \<Rightarrow> real \<times> real \<times> 'v list \<Rightarrow> ('i, 'v, 'w) Call list" where
  "spanCalls a = (\<lambda>(k, k', vs).
     case aggregationFunction a vs of
       Inl e \<Rightarrow> [AggCall vs]
     | Inr w \<Rightarrow> [AggCall vs, PostCall \<lparr>block_start = k, block_end = k', block_value = w\<rparr>])"

subsection \<open>Reading the store\<close>

text \<open>What a call has returned: the exception, or the content of the array it refers to.\<close>

definition returned :: "('v, 'r) Store \<Rightarrow> 'e + nat \<Rightarrow> 'e + 'r list" where
  "returned s res = (case res of Inl e \<Rightarrow> Inl e | Inr p \<Rightarrow> Inr (arrays s ! p))"

subsection \<open>The scan as the specification words it\<close>

text \<open>
  A second scan, written after the sentences of the specification and not after the code:
  state Active Set and \<open>previousKey\<close>, initially undefined; at the current key \<open>k\<close> with
  node \<open>N\<close>, (a) insert the arrivals of \<open>N\<close>, (b) remove its departures, (c) if
  \<open>previousKey\<close> is defined and the Active Set is not empty, aggregate its values and emit
  the block from \<open>previousKey\<close> to \<open>k\<close>, (d) set \<open>previousKey\<close> to \<open>k\<close>.  It is
  compared with \<open>aggregate_loop\<close> below.
\<close>

fun aggregate_loop_spec ::
  "('i, 'v, 'w, 'r, 'e) Aggregator \<Rightarrow> 'v NodeValue Tree \<Rightarrow> real option \<Rightarrow> 'v NodeValues \<Rightarrow>
   'r list \<Rightarrow> ('i, 'v, 'w) Call list \<Rightarrow> ('i, 'v, 'w) Call list \<times> ('e + 'r list)" where
  "aggregate_loop_spec a [] previousKey activeSet output hist = (hist, Inr output)"
| "aggregate_loop_spec a ((k, N) # rest) previousKey activeSet output hist =
     (let activeSet' = foldl map_delete
                         (foldl (\<lambda>m (key, v). map_set m key v) activeSet (nv_start N)) (nv_end N)
      in case previousKey of
           None \<Rightarrow> aggregate_loop_spec a rest (Some k) activeSet' output hist
         | Some pk \<Rightarrow>
             if map_size activeSet' = 0
             then aggregate_loop_spec a rest (Some k) activeSet' output hist
             else
               (case aggregationFunction a (map_values activeSet') of
                  Inl e \<Rightarrow> (hist @ [AggCall (map_values activeSet')], Inl e)
                | Inr aggregatedValue \<Rightarrow>
                    (let block = \<lparr>block_start = pk, block_end = k, block_value = aggregatedValue\<rparr>;
                         hist' = hist @ [AggCall (map_values activeSet'), PostCall block]
                     in case itemPostProcessor a block of
                          Inl e \<Rightarrow> (hist', Inl e)
                        | Inr r \<Rightarrow> aggregate_loop_spec a rest (Some k) activeSet' (output @ [r]) hist')))"

definition aggregate_spec ::
  "('i, 'v, 'w, 'r, 'e) Aggregator \<Rightarrow> 'i list \<Rightarrow> ('i, 'v, 'w) Call list \<Rightarrow>
   ('i, 'v, 'w) Call list \<times> ('e + 'r list)" where
  "aggregate_spec a items hist =
     (case createRedBlackTree a items hist of
        (hist', Inl e) \<Rightarrow> (hist', Inl e)
      | (hist', Inr sweepIndex) \<Rightarrow> aggregate_loop_spec a sweepIndex None [] [] hist')"

subsection \<open>Instances for the examples\<close>

text \<open>
  Items are triples (start, end, name).  \<open>listAggregator\<close> is the instance of the
  example scenarios: the aggregation function returns the list of names, the
  post-processor returns the block as it is.  \<open>checkedAggregator\<close> has callbacks that
  throw: the pre-processor rejects a triple that is not a range, the aggregation function
  refuses an overlap.  The post-processor of \<open>lateAggregator\<close> throws on a block that
  ends after 10.
\<close>

definition rangeBlock :: "real \<times> real \<times> string \<Rightarrow> string Block" where
  "rangeBlock = (\<lambda>(s, e, v). \<lparr>block_start = s, block_end = e, block_value = v\<rparr>)"

definition listAggregator ::
  "(real \<times> real \<times> string, string, string list, string list Block, unit) Aggregator" where
  "listAggregator = pureAggregator rangeBlock (\<lambda>vs. vs) (\<lambda>b. b)"

definition checkedAggregator ::
  "(real \<times> real \<times> string, string, string list, string list Block, string) Aggregator" where
  "checkedAggregator =
     \<lparr>itemPreProcessor = (\<lambda>(s, e, v).
          if s < e then Inr \<lparr>block_start = s, block_end = e, block_value = v\<rparr>
          else Inl ''malformed''),
      aggregationFunction = (\<lambda>vs. if length vs \<le> 1 then Inr vs else Inl ''overlap''),
      itemPostProcessor = Inr\<rparr>"

definition lateAggregator ::
  "(real \<times> real \<times> string, string, string list, string list Block, string) Aggregator" where
  "lateAggregator =
     \<lparr>itemPreProcessor = (\<lambda>item. Inr (rangeBlock item)),
      aggregationFunction = Inr,
      itemPostProcessor = (\<lambda>b. if block_end b \<le> 10 then Inr b else Inl ''late'')\<rparr>"

section \<open>Notions used in the proofs\<close>

subsection \<open>The scan in two phases\<close>

text \<open>
  \<open>spans\<close> lists what the loop of \<^verbatim>\<open>aggregate\<close> finds, without calling anything: for
  every entry that has a successor and leaves the map non-empty, the two keys and the
  values of the map.  \<open>emit\<close> makes the calls for such a list.  The loop is \<open>emit\<close> after
  \<open>spans\<close> (lemma \<open>aggregate_loop_emit\<close>).
\<close>

fun spans :: "'v NodeValue Tree \<Rightarrow> 'v NodeValues \<Rightarrow> (real \<times> real \<times> 'v list) list" where
  "spans [] m = []"
| "spans [n] m = []"
| "spans ((k, v) # (k', v') # rest) m =
     (if applyNode m v = [] then spans ((k', v') # rest) (applyNode m v)
      else (k, k', map snd (applyNode m v)) # spans ((k', v') # rest) (applyNode m v))"

fun emit ::
  "('i, 'v, 'w, 'r, 'e) Aggregator \<Rightarrow> (real \<times> real \<times> 'v list) list \<Rightarrow> 'r list \<Rightarrow>
   ('i, 'v, 'w) Call list \<Rightarrow> ('i, 'v, 'w) Call list \<times> ('e + 'r list)" where
  "emit a [] out hist = (hist, Inr out)"
| "emit a ((k, k', vs) # sp) out hist =
     (case aggregationFunction a vs of
        Inl e \<Rightarrow> (hist @ [AggCall vs], Inl e)
      | Inr w \<Rightarrow>
          (case itemPostProcessor a \<lparr>block_start = k, block_end = k', block_value = w\<rparr> of
             Inl e \<Rightarrow> (hist @ [AggCall vs, PostCall \<lparr>block_start = k, block_end = k', block_value = w\<rparr>], Inl e)
           | Inr r \<Rightarrow> emit a sp (out @ [r])
                (hist @ [AggCall vs, PostCall \<lparr>block_start = k, block_end = k', block_value = w\<rparr>])))"

subsection \<open>The tree of a list of blocks\<close>

text \<open>The loop of \<^verbatim>\<open>createRedBlackTree\<close> over blocks that are already normalised.\<close>

fun insertBlocks :: "nat \<Rightarrow> 'v Block list \<Rightarrow> 'v NodeValue Tree \<Rightarrow> 'v NodeValue Tree" where
  "insertBlocks i [] t = t"
| "insertBlocks i (b # bs) t =
     insertBlocks (Suc i) bs
       (pushValueToNode (pushValueToNode t (block_start b) (PushStart (i, block_value b)))
          (block_end b) (PushEnd i))"

text \<open>
  The tree in closed form, for blocks paired with their indices: its keys are the start
  and end coordinates, the node at a key lists the blocks that start there and the
  indices of those that end there.
\<close>

definition coords :: "(nat \<times> 'v Block) list \<Rightarrow> real set" where
  "coords ebs = (\<lambda>(i, b). block_start b) ` set ebs \<union> (\<lambda>(i, b). block_end b) ` set ebs"

definition nodeOf :: "(nat \<times> 'v Block) list \<Rightarrow> real \<Rightarrow> 'v NodeValue" where
  "nodeOf ebs k =
     \<lparr>nv_start = map (\<lambda>(i, b). (i, block_value b)) (filter (\<lambda>(i, b). block_start b = k) ebs),
      nv_end = map fst (filter (\<lambda>(i, b). block_end b = k) ebs)\<rparr>"

definition treeOf :: "(real \<Rightarrow> 'a) \<Rightarrow> real set \<Rightarrow> 'a Tree" where
  "treeOf F A = map (\<lambda>k. (k, F k)) (sorted_list_of_set A)"

definition indexOf :: "(nat \<times> 'v Block) list \<Rightarrow> 'v NodeValue Tree" where
  "indexOf ebs = treeOf (nodeOf ebs) (coords ebs)"

definition pushOnto :: "'v Pushed \<Rightarrow> 'v NodeValue \<Rightarrow> 'v NodeValue" where
  "pushOnto pushed nv =
     (case pushed of
        PushStart val \<Rightarrow> nv\<lparr>nv_start := nv_start nv @ [val]\<rparr>
      | PushEnd i \<Rightarrow> nv\<lparr>nv_end := nv_end nv @ [i]\<rparr>)"

subsection \<open>The map in closed form\<close>

text \<open>
  A block is live at \<open>k\<close> when it has been set at or before \<open>k\<close> and not deleted since:
  a block whose end lies before its start is deleted before it is set, and stays.  The
  map after the node at \<open>k\<close> holds the live blocks in the order of their start, blocks
  with the same start in index order.
\<close>

definition byStart :: "(nat \<times> 'v Block) list \<Rightarrow> (nat \<times> 'v Block) list" where
  "byStart ebs = sort_key (\<lambda>(i, b). block_start b) ebs"

definition liveAt :: "real \<Rightarrow> 'v Block \<Rightarrow> bool" where
  "liveAt k b = (block_start b \<le> k \<and> (block_end b < block_start b \<or> k < block_end b))"

definition liveBefore :: "real \<Rightarrow> 'v Block \<Rightarrow> bool" where
  "liveBefore k b = (block_start b < k \<and> (block_end b < block_start b \<or> k \<le> block_end b))"

definition activeAt :: "(nat \<times> 'v Block) list \<Rightarrow> real \<Rightarrow> 'v NodeValues" where
  "activeAt ebs k = map (\<lambda>(i, b). (i, block_value b)) (filter (\<lambda>(i, b). liveAt k b) (byStart ebs))"

definition activeBefore :: "(nat \<times> 'v Block) list \<Rightarrow> real \<Rightarrow> 'v NodeValues" where
  "activeBefore ebs k = map (\<lambda>(i, b). (i, block_value b)) (filter (\<lambda>(i, b). liveBefore k b) (byStart ebs))"

definition spansOf :: "(nat \<times> 'v Block) list \<Rightarrow> real list \<Rightarrow> (real \<times> real \<times> 'v list) list" where
  "spansOf ebs ks =
     map (\<lambda>(k, k'). (k, k', map snd (activeAt ebs k)))
       (filter (\<lambda>(k, k'). activeAt ebs k \<noteq> []) (zip ks (tl ks)))"

subsection \<open>The emitted blocks in closed form\<close>

definition keysOf :: "'v Block list \<Rightarrow> real list" where
  "keysOf bs = sorted_list_of_set (set (map block_start bs) \<union> set (map block_end bs))"

definition valuesAt :: "'v Block list \<Rightarrow> real \<Rightarrow> 'v list" where
  "valuesAt bs k = map block_value (filter (liveAt k) (sort_key block_start bs))"

definition blockSpans :: "('v list \<Rightarrow> 'w) \<Rightarrow> 'v Block list \<Rightarrow> 'w Block list" where
  "blockSpans agg bs =
     map (\<lambda>(k, k'). \<lparr>block_start = k, block_end = k', block_value = agg (valuesAt bs k)\<rparr>)
       (filter (\<lambda>(k, k'). valuesAt bs k \<noteq> []) (zip (keysOf bs) (tl (keysOf bs))))"

subsection \<open>A tree of references and the tree of values it stands for\<close>

text \<open>
  The tree of node values behind a tree of references, and the condition under which the
  store refines the functions on values: no two keys refer to the same object, and every
  reference is to an object that the call has created (index at least \<open>n\<close>) and
  that exists.
\<close>

definition derefTree :: "('v, 'r) Store \<Rightarrow> nat Tree \<Rightarrow> 'v NodeValue Tree" where
  "derefTree s t = map (\<lambda>(k, p). (k, nodes s ! p)) t"

definition ownedTree :: "nat \<Rightarrow> ('v, 'r) Store \<Rightarrow> nat Tree \<Rightarrow> bool" where
  "ownedTree n s t = (distinct (map snd t) \<and> (\<forall>p \<in> snd ` set t. n \<le> p \<and> p < length (nodes s)))"

section \<open>Auxiliary facts\<close>

lemma aggregate_loop_emit:
  "aggregate_loop a t m out hist = emit a (spans t m) out hist"
  by (induction a t m out hist rule: aggregate_loop.induct)
     (auto simp: map_size_def map_values_def Let_def split: sum.splits)

lemma createRedBlackTree_loop_ok:
  "map (itemPreProcessor a) items = map Inr bs \<Longrightarrow>
   createRedBlackTree_loop a i items t hist = (hist @ map PreCall items, Inr (insertBlocks i bs t))"
proof (induction items arbitrary: bs i t hist)
  case Nil
  then show ?case by simp
next
  case (Cons item items)
  then obtain b bs' where bs: "bs = b # bs'" "itemPreProcessor a item = Inr b"
    "map (itemPreProcessor a) items = map Inr bs'"
    by (cases bs) auto
  show ?case using Cons.IH[OF bs(3)] bs(1,2) by (simp add: Let_def)
qed

lemma createRedBlackTree_loop_fail:
  "map (itemPreProcessor a) xs = map Inr bs \<Longrightarrow> itemPreProcessor a x = Inl e \<Longrightarrow>
   createRedBlackTree_loop a i (xs @ x # ys) t hist = (hist @ map PreCall (xs @ [x]), Inl e)"
proof (induction xs arbitrary: bs i t hist)
  case Nil
  then show ?case by simp
next
  case (Cons item items)
  then obtain b bs' where bs: "bs = b # bs'" "itemPreProcessor a item = Inr b"
    "map (itemPreProcessor a) items = map Inr bs'"
    by (cases bs) auto
  show ?case using Cons.IH[OF bs(3) Cons.prems(2)] bs(1,2) by (simp add: Let_def)
qed

lemma all_ok_blocks:
  "\<forall>x \<in> set xs. \<forall>e. f x \<noteq> Inl e \<Longrightarrow> \<exists>bs. map f xs = map Inr bs"
proof (induction xs)
  case Nil
  show ?case by simp
next
  case (Cons x xs)
  then obtain bs where "map f xs = map Inr bs" by auto
  moreover obtain b where "f x = Inr b" using Cons.prems by (cases "f x") auto
  ultimately have "map f (x # xs) = map Inr (b # bs)" by simp
  then show ?case by blast
qed

lemma first_failure:
  assumes "x \<in> set items" "f x = Inl e"
  shows "\<exists>xs y ys e' bs. items = xs @ y # ys \<and> f y = Inl e' \<and> map f xs = map Inr bs"
proof -
  have "\<exists>x \<in> set items. \<exists>e. f x = Inl e" using assms by blast
  then obtain xs y ys where s: "items = xs @ y # ys" "\<exists>e. f y = Inl e" "\<forall>z \<in> set xs. \<not> (\<exists>e. f z = Inl e)"
    using split_list_first_prop[of items "\<lambda>x. \<exists>e. f x = Inl e"] by blast
  from s(3) obtain bs where "map f xs = map Inr bs" using all_ok_blocks[of xs f] by auto
  with s show ?thesis by blast
qed

lemma emitted_append: "emitted (xs @ ys) = emitted xs @ emitted ys"
  by (simp add: emitted_def)

lemma emitted_PreCalls: "emitted (map PreCall xs) = []"
  by (induction xs) (simp_all add: emitted_def)

lemma aggregated_PreCalls: "aggregated (map PreCall xs) = []"
  by (induction xs) (simp_all add: aggregated_def)

lemma rb_get_map: "rb_get (map (\<lambda>k. (k, F k)) ks) key = (if key \<in> set ks then Some (F key) else None)"
  by (induction ks) auto

lemma rb_remove_map: "rb_remove (map (\<lambda>k. (k, F k)) ks) key = map (\<lambda>k. (k, F k)) (remove1 key ks)"
  by (induction ks) auto

lemma rb_insert_map:
  "key \<notin> set ks \<Longrightarrow>
   rb_insert (map (\<lambda>k. (k, F k)) ks) key v = map (\<lambda>k. (k, (F(key := v)) k)) (insort key ks)"
  by (induction ks) auto

lemma map_fun_upd_other: "key \<notin> set ks \<Longrightarrow> map (\<lambda>k. (k, (F(key := v)) k)) ks = map (\<lambda>k. (k, F k)) ks"
  by (induction ks) auto

lemma insort_remove1_set:
  "finite A \<Longrightarrow> insort key (remove1 key (sorted_list_of_set A)) = sorted_list_of_set (insert key A)"
proof (cases "key \<in> A")
  case True
  assume "finite A"
  then show ?thesis using True
    by (simp add: insort_remove1 insert_absorb)
next
  case False
  assume "finite A"
  then show ?thesis using False by (simp add: remove1_idem)
qed

lemma pushValueToNode_treeOf:
  assumes "finite A"
  shows "pushValueToNode (treeOf F A) key p =
         treeOf (F(key := pushOnto p (if key \<in> A then F key else emptyNodeValue))) (insert key A)"
proof -
  let ?ks = "sorted_list_of_set A"
  let ?v = "pushOnto p (if key \<in> A then F key else emptyNodeValue)"
  have g: "rb_get (treeOf F A) key = (if key \<in> A then Some (F key) else None)"
    using assms by (simp add: treeOf_def rb_get_map)
  have r: "rb_remove (treeOf F A) key = map (\<lambda>k. (k, F k)) (remove1 key ?ks)"
    by (simp add: treeOf_def rb_remove_map)
  have n: "key \<notin> set (remove1 key ?ks)" using assms by simp
  have "pushValueToNode (treeOf F A) key p = rb_insert (map (\<lambda>k. (k, F k)) (remove1 key ?ks)) key ?v"
    unfolding pushValueToNode_def Let_def g r by (simp add: pushOnto_def split: Pushed.splits)
  also have "\<dots> = map (\<lambda>k. (k, (F(key := ?v)) k)) (insort key (remove1 key ?ks))"
    by (rule rb_insert_map[OF n])
  also have "\<dots> = treeOf (F(key := ?v)) (insert key A)"
    using insort_remove1_set[OF assms, of key] by (simp add: treeOf_def)
  finally show ?thesis .
qed

lemma finite_coords: "finite (coords ebs)"
  by (simp add: coords_def)

lemma coords_snoc: "coords (ebs @ [(i, b)]) = insert (block_end b) (insert (block_start b) (coords ebs))"
  by (auto simp: coords_def)

lemma nodeOf_outside: "k \<notin> coords ebs \<Longrightarrow> nodeOf ebs k = emptyNodeValue"
proof -
  assume k: "k \<notin> coords ebs"
  have "filter (\<lambda>(i, b). block_start b = k) ebs = []"
    using k by (auto simp: coords_def filter_empty_conv image_iff)
  moreover have "filter (\<lambda>(i, b). block_end b = k) ebs = []"
    using k by (auto simp: coords_def filter_empty_conv image_iff)
  ultimately show ?thesis by (simp add: nodeOf_def emptyNodeValue_def)
qed

lemma nodeOf_snoc:
  "nodeOf (ebs @ [(i, b)]) =
     (let F1 = (nodeOf ebs)(block_start b := pushOnto (PushStart (i, block_value b)) (nodeOf ebs (block_start b)))
      in F1(block_end b := pushOnto (PushEnd i) (F1 (block_end b))))"
  by (rule ext) (simp add: nodeOf_def pushOnto_def Let_def)

lemma push_indexOf:
  "pushValueToNode (pushValueToNode (indexOf ebs) (block_start b) (PushStart (i, block_value b)))
      (block_end b) (PushEnd i) = indexOf (ebs @ [(i, b)])"
proof -
  let ?F = "nodeOf ebs" and ?A = "coords ebs"
  let ?s = "block_start b" and ?e = "block_end b"
  let ?F1 = "?F(?s := pushOnto (PushStart (i, block_value b)) (?F ?s))"
  have 1: "pushValueToNode (treeOf ?F ?A) ?s (PushStart (i, block_value b)) = treeOf ?F1 (insert ?s ?A)"
    using pushValueToNode_treeOf[OF finite_coords, of ?F ebs ?s "PushStart (i, block_value b)"]
      nodeOf_outside[of ?s ebs] by (cases "?s \<in> ?A") simp_all
  have out: "?F1 ?e = emptyNodeValue" if "?e \<notin> insert ?s ?A"
    using that nodeOf_outside[of ?e ebs] by simp
  have 2: "pushValueToNode (treeOf ?F1 (insert ?s ?A)) ?e (PushEnd i) =
           treeOf (?F1(?e := pushOnto (PushEnd i) (?F1 ?e))) (insert ?e (insert ?s ?A))"
    using pushValueToNode_treeOf[of "insert ?s ?A" ?F1 ?e "PushEnd i"] finite_coords[of ebs] out
    by (cases "?e \<in> insert ?s ?A") simp_all
  show ?thesis
    unfolding indexOf_def 1 2 coords_snoc nodeOf_snoc Let_def ..
qed

lemma insertBlocks_indexOf:
  "insertBlocks i bs (indexOf ebs) = indexOf (ebs @ enumerate i bs)"
proof (induction bs arbitrary: i ebs)
  case Nil
  show ?case by simp
next
  case (Cons b bs)
  show ?case using Cons.IH[of "Suc i" "ebs @ [(i, b)]"] by (simp add: push_indexOf)
qed

lemma indexOf_Nil: "indexOf [] = createRBTree"
  by (simp add: indexOf_def treeOf_def coords_def createRBTree_def)

lemma createRedBlackTree_indexOf:
  "map (itemPreProcessor a) items = map Inr bs \<Longrightarrow>
   createRedBlackTree a items hist = (hist @ map PreCall items, Inr (indexOf (enumerate 0 bs)))"
  using createRedBlackTree_loop_ok[of a items bs 0 createRBTree hist]
    insertBlocks_indexOf[of 0 bs "[]"]
  by (simp add: createRedBlackTree_def indexOf_Nil)

lemma map_set_fresh: "key \<notin> fst ` set m \<Longrightarrow> map_set m key v = m @ [(key, v)]"
  by (induction m) auto

lemma foldl_map_set_fresh:
  "distinct (map fst (m @ xs)) \<Longrightarrow> foldl (\<lambda>m (key, v). map_set m key v) m xs = m @ xs"
proof (induction xs arbitrary: m)
  case Nil
  show ?case by simp
next
  case (Cons x xs)
  obtain key v where x: "x = (key, v)" by (cases x)
  have f: "key \<notin> fst ` set m" using Cons.prems by (auto simp: x)
  have d: "distinct (map fst ((m @ [(key, v)]) @ xs))" using Cons.prems by (simp add: x)
  show ?case using Cons.IH[OF d] by (simp add: x map_set_fresh[OF f])
qed

lemma map_delete_filter:
  "distinct (map fst m) \<Longrightarrow> map_delete m i = filter (\<lambda>(j, v). j \<noteq> i) m"
proof (induction m)
  case Nil
  show ?case by simp
next
  case (Cons x m)
  obtain j w where x: "x = (j, w)" by (cases x)
  show ?case
  proof (cases "j = i")
    case True
    then have "\<forall>y \<in> set m. fst y \<noteq> i" using Cons.prems by (auto simp: x)
    then have "filter (\<lambda>(j, v). j \<noteq> i) m = m" by (auto simp: filter_id_conv)
    then show ?thesis using True by (simp add: x)
  next
    case False
    then show ?thesis using Cons by (simp add: x)
  qed
qed

lemma foldl_map_delete_filter:
  "distinct (map fst m) \<Longrightarrow> foldl map_delete m ids = filter (\<lambda>(j, v). j \<notin> set ids) m"
proof (induction ids arbitrary: m)
  case Nil
  show ?case by simp
next
  case (Cons i ids)
  have d: "distinct (map fst (filter (\<lambda>(j, v). j \<noteq> i) m))"
    using Cons.prems by (rule distinct_map_filter)
  have "foldl map_delete m (i # ids) = filter (\<lambda>(j, v). j \<notin> set ids) (filter (\<lambda>(j, v). j \<noteq> i) m)"
    using Cons.IH[OF d] by (simp add: map_delete_filter[OF Cons.prems])
  also have "\<dots> = filter (\<lambda>(j, v). j \<notin> set (i # ids)) m"
    by (auto intro: filter_cong)
  finally show ?case .
qed

lemma filter_sorted_split:
  "sorted (map f xs) \<Longrightarrow>
   filter (\<lambda>x. f x < k \<and> R x) xs @ filter (\<lambda>x. f x = k) xs
     = filter (\<lambda>x. (f x < k \<and> R x) \<or> f x = (k::real)) xs"
proof (induction xs)
  case Nil
  show ?case by simp
next
  case (Cons x xs)
  then have ih: "filter (\<lambda>x. f x < k \<and> R x) xs @ filter (\<lambda>x. f x = k) xs
     = filter (\<lambda>x. (f x < k \<and> R x) \<or> f x = k) xs" by simp
  have le: "\<forall>y \<in> set xs. f x \<le> f y" using Cons.prems by simp
  show ?case
  proof (cases "f x < k")
    case True
    then show ?thesis using ih by simp
  next
    case False
    then have "\<forall>y \<in> set xs. \<not> (f y < k \<and> R y)" using le by fastforce
    then have e: "filter (\<lambda>x. f x < k \<and> R x) xs = []" by (simp add: filter_empty_conv)
    show ?thesis using False ih e by simp
  qed
qed

lemma byStart_props:
  "set (byStart ebs) = set ebs"
  "distinct (map fst ebs) \<Longrightarrow> distinct (map fst (byStart ebs))"
  "sorted (map (\<lambda>x. block_start (snd x)) (byStart ebs))"
proof -
  show "set (byStart ebs) = set ebs" by (simp add: byStart_def)
  show "distinct (map fst (byStart ebs))" if "distinct (map fst ebs)"
    using that by (simp add: byStart_def distinct_map)
  have "(\<lambda>(i, b). block_start b) = (\<lambda>x::nat \<times> 'a Block. block_start (snd x))"
    by (simp add: split_def)
  then show "sorted (map (\<lambda>x. block_start (snd x)) (byStart ebs))"
    unfolding byStart_def using sorted_sort_key[of "\<lambda>x::nat \<times> 'a Block. block_start (snd x)" ebs] by simp
qed

lemma byStart_stable:
  "filter (\<lambda>x. block_start (snd x) = k) (byStart ebs) = filter (\<lambda>x. block_start (snd x) = k) ebs"
proof -
  have "(\<lambda>(i, b). block_start b) = (\<lambda>x::nat \<times> 'a Block. block_start (snd x))"
    by (simp add: split_def)
  then show ?thesis
    unfolding byStart_def using sort_key_stable[of "\<lambda>x::nat \<times> 'a Block. block_start (snd x)" k ebs] by simp
qed

lemma departs_iff:
  assumes "distinct (map fst ebs)" "x \<in> set ebs"
  shows "fst x \<in> set (map fst (filter (\<lambda>y. block_end (snd y) = k) ebs)) \<longleftrightarrow> block_end (snd x) = k"
proof
  assume "fst x \<in> set (map fst (filter (\<lambda>y. block_end (snd y) = k) ebs))"
  then obtain y where y: "y \<in> set ebs" "block_end (snd y) = k" "fst y = fst x" by auto
  have "inj_on fst (set ebs)" using assms(1) by (simp add: distinct_map)
  then have "y = x" using y(1,3) assms(2) by (auto dest: inj_onD)
  then show "block_end (snd x) = k" using y(2) by simp
next
  assume "block_end (snd x) = k"
  then show "fst x \<in> set (map fst (filter (\<lambda>y. block_end (snd y) = k) ebs))"
    using assms(2) by auto
qed

lemma applyNode_active:
  assumes d: "distinct (map fst ebs)"
  shows "applyNode (activeBefore ebs k) (nodeOf ebs k) = activeAt ebs k"
proof -
  let ?S = "byStart ebs"
  let ?g = "\<lambda>x::nat \<times> 'a Block. (fst x, block_value (snd x))"
  let ?P = "\<lambda>x::nat \<times> 'a Block. block_start (snd x) < k \<and> (block_end (snd x) < block_start (snd x) \<or> k \<le> block_end (snd x))"
  let ?Q = "\<lambda>x::nat \<times> 'a Block. block_start (snd x) = k"
  let ?PQ = "\<lambda>x. ?P x \<or> ?Q x"
  let ?D = "map fst (filter (\<lambda>y. block_end (snd y) = k) ebs)"
  let ?L = "\<lambda>x::nat \<times> 'a Block. liveAt k (snd x)"
  have before: "activeBefore ebs k = map ?g (filter ?P ?S)"
    by (simp add: activeBefore_def liveBefore_def split_def)
  have at: "activeAt ebs k = map ?g (filter ?L ?S)"
    by (simp add: activeAt_def split_def)
  have arr: "nv_start (nodeOf ebs k) = map ?g (filter ?Q ?S)"
    by (simp add: nodeOf_def split_def byStart_stable)
  have dep: "nv_end (nodeOf ebs k) = ?D"
    by (simp add: nodeOf_def split_def)
  have fg: "map fst (map ?g xs) = map fst xs" for xs by simp
  have join: "map ?g (filter ?P ?S) @ map ?g (filter ?Q ?S) = map ?g (filter ?PQ ?S)"
    using filter_sorted_split[of "\<lambda>x. block_start (snd x)" ?S k
        "\<lambda>x. block_end (snd x) < block_start (snd x) \<or> k \<le> block_end (snd x)",
        OF byStart_props(3)]
    by (simp flip: map_append)
  have dS: "distinct (map fst ?S)" using d by (rule byStart_props(2))
  have d1: "distinct (map fst (map ?g (filter ?P ?S) @ map ?g (filter ?Q ?S)))"
    unfolding join fg using dS by (rule distinct_map_filter)
  have 1: "foldl (\<lambda>m (key, v). map_set m key v) (activeBefore ebs k) (nv_start (nodeOf ebs k))
           = map ?g (filter ?PQ ?S)"
    unfolding before arr using foldl_map_set_fresh[OF d1] join by simp
  have d2: "distinct (map fst (map ?g (filter ?PQ ?S)))"
    unfolding fg using dS by (rule distinct_map_filter)
  have 2: "applyNode (activeBefore ebs k) (nodeOf ebs k)
           = filter (\<lambda>(j, v). j \<notin> set ?D) (map ?g (filter ?PQ ?S))"
    unfolding applyNode_def 1 dep using foldl_map_delete_filter[OF d2] by simp
  have 3: "filter (\<lambda>(j, v). j \<notin> set ?D) (map ?g (filter ?PQ ?S))
           = map ?g (filter (\<lambda>x. ?PQ x \<and> fst x \<notin> set ?D) ?S)"
    by (simp add: filter_map comp_def split_def)
  have 4: "filter (\<lambda>x. ?PQ x \<and> fst x \<notin> set ?D) ?S = filter ?L ?S"
  proof (rule filter_cong[OF refl])
    fix x assume "x \<in> set ?S"
    then have "x \<in> set ebs" by (simp add: byStart_props(1))
    from departs_iff[OF d this, of k]
    show "(?PQ x \<and> fst x \<notin> set ?D) = ?L x"
      by (auto simp: liveAt_def)
  qed
  show ?thesis unfolding 2 3 4 at ..
qed

lemma active_next:
  assumes "sorted_wrt (<) (k # k' # ks)"
    and "\<forall>x \<in> coords ebs. x \<in> set (k # k' # ks) \<or> x < k"
  shows "activeAt ebs k = activeBefore ebs k'"
proof -
  have c: "(x \<le> k) = (x < k')" if "x \<in> coords ebs" for x
    using assms that by fastforce
  have "filter (\<lambda>(i, b). liveAt k b) (byStart ebs) = filter (\<lambda>(i, b). liveBefore k' b) (byStart ebs)"
  proof (rule filter_cong[OF refl])
    fix x assume "x \<in> set (byStart ebs)"
    then have x: "x \<in> set ebs" by (simp add: byStart_props(1))
    have s: "block_start (snd x) \<in> coords ebs" and e: "block_end (snd x) \<in> coords ebs"
      using x by (auto simp: coords_def split_def intro: rev_image_eqI)
    show "(case x of (i, b) \<Rightarrow> liveAt k b) = (case x of (i, b) \<Rightarrow> liveBefore k' b)"
      using c[OF s] c[OF e] by (auto simp: liveAt_def liveBefore_def split_def)
  qed
  then show ?thesis by (simp add: activeAt_def activeBefore_def)
qed

lemma spans_nodes:
  "distinct (map fst ebs) \<Longrightarrow> sorted_wrt (<) (k # ks) \<Longrightarrow>
   \<forall>x \<in> coords ebs. x \<in> set (k # ks) \<or> x < k \<Longrightarrow>
   spans (map (\<lambda>k. (k, nodeOf ebs k)) (k # ks)) (activeBefore ebs k) = spansOf ebs (k # ks)"
proof (induction ks arbitrary: k)
  case Nil
  show ?case by (simp add: spansOf_def)
next
  case (Cons k' ks)
  have nx: "activeAt ebs k = activeBefore ebs k'"
    using active_next[OF Cons.prems(2,3)] .
  have s': "sorted_wrt (<) (k' # ks)" using Cons.prems(2) by simp
  have lt: "k < k'" using Cons.prems(2) by simp
  have c': "\<forall>x \<in> coords ebs. x \<in> set (k' # ks) \<or> x < k'"
    using Cons.prems(3) lt by fastforce
  have ih: "spans (map (\<lambda>k. (k, nodeOf ebs k)) (k' # ks)) (activeAt ebs k) = spansOf ebs (k' # ks)"
    unfolding nx using Cons.IH[OF Cons.prems(1) s' c'] .
  have step: "spansOf ebs (k # k' # ks) =
        (if activeAt ebs k = [] then spansOf ebs (k' # ks)
         else (k, k', map snd (activeAt ebs k)) # spansOf ebs (k' # ks))"
    by (simp add: spansOf_def)
  have "spans (map (\<lambda>k. (k, nodeOf ebs k)) (k # k' # ks)) (activeBefore ebs k) =
        (if activeAt ebs k = [] then spans (map (\<lambda>k. (k, nodeOf ebs k)) (k' # ks)) (activeAt ebs k)
         else (k, k', map snd (activeAt ebs k)) # spans (map (\<lambda>k. (k, nodeOf ebs k)) (k' # ks)) (activeAt ebs k))"
    by (simp add: applyNode_active[OF Cons.prems(1)])
  then show ?case unfolding ih step .
qed

lemma activeBefore_min:
  "\<forall>x \<in> coords ebs. k \<le> x \<Longrightarrow> activeBefore ebs k = []"
proof -
  assume m: "\<forall>x \<in> coords ebs. k \<le> x"
  have "\<not> liveBefore k (snd x)" if "x \<in> set (byStart ebs)" for x
  proof -
    from that have x: "x \<in> set ebs" by (simp add: byStart_props(1))
    then have "block_start (snd x) \<in> coords ebs"
      by (auto simp: coords_def split_def intro: rev_image_eqI)
    then show ?thesis using m by (auto simp: liveBefore_def)
  qed
  then show ?thesis by (auto simp: activeBefore_def filter_empty_conv)
qed

lemma spans_indexOf:
  assumes "distinct (map fst ebs)"
  shows "spans (indexOf ebs) [] = spansOf ebs (sorted_list_of_set (coords ebs))"
proof (cases "sorted_list_of_set (coords ebs)")
  case Nil
  then show ?thesis by (simp add: indexOf_def treeOf_def spansOf_def)
next
  case (Cons k ks)
  have s: "sorted_wrt (<) (k # ks)" using strict_sorted_list_of_set[of "coords ebs"] Cons by simp
  have m: "set (k # ks) = coords ebs" using Cons finite_coords[of ebs]
    by (metis set_sorted_list_of_set)
  have c: "\<forall>x \<in> coords ebs. x \<in> set (k # ks) \<or> x < k" using m by simp
  have "\<forall>x \<in> coords ebs. k \<le> x" using s m by fastforce
  then have e: "activeBefore ebs k = []" by (rule activeBefore_min)
  show ?thesis
    using spans_nodes[OF assms s c] e Cons by (simp add: indexOf_def treeOf_def)
qed

lemma emit_pure:
  assumes a: "a = pureAggregator pre agg post"
  shows "emit a sp out hist =
     (hist @ concat (map (\<lambda>(k, k', vs).
                [AggCall vs, PostCall \<lparr>block_start = k, block_end = k', block_value = agg vs\<rparr>]) sp),
      Inr (out @ map (\<lambda>(k, k', vs). post \<lparr>block_start = k, block_end = k', block_value = agg vs\<rparr>) sp))"
proof (induction sp arbitrary: out hist)
  case Nil
  show ?case by simp
next
  case (Cons x sp)
  obtain k k' vs where x: "x = (k, k', vs)" by (cases x)
  have ag: "aggregationFunction a vs = Inr (agg vs)" for vs by (simp add: a pureAggregator_def)
  have po: "itemPostProcessor a b = Inr (post b)" for b by (simp add: a pureAggregator_def)
  let ?b = "\<lparr>block_start = k, block_end = k', block_value = agg vs\<rparr>"
  have step: "emit a (x # sp) out hist = emit a sp (out @ [post ?b]) (hist @ [AggCall vs, PostCall ?b])"
    by (simp add: x ag po)
  show ?case unfolding step Cons.IH by (simp add: x)
qed

lemma pairs_lt:
  "sorted_wrt (<) ks \<Longrightarrow> (k, k') \<in> set (zip ks (tl ks)) \<Longrightarrow>
   k < k' \<and> k \<in> set ks \<and> k' \<in> set ks \<and> (\<forall>x \<in> set ks. x \<le> k \<or> k' \<le> (x::real))"
proof (induction ks rule: induct_list012)
  case 1
  then show ?case by simp
next
  case (2 x)
  then show ?case by simp
next
  case (3 x y zs)
  from 3(3) have s: "sorted_wrt (<) (y # zs)" "x < y" "\<forall>z \<in> set zs. y < z" by auto
  from 3(4) have "(k, k') = (x, y) \<or> (k, k') \<in> set (zip (y # zs) (tl (y # zs)))" by simp
  then show ?case
  proof
    assume "(k, k') = (x, y)"
    then show ?thesis using s by fastforce
  next
    assume m: "(k, k') \<in> set (zip (y # zs) (tl (y # zs)))"
    from 3(2)[OF s(1) m] have ih: "k < k'" "k \<in> set (y # zs)" "k' \<in> set (y # zs)"
      "\<forall>x \<in> set (y # zs). x \<le> k \<or> k' \<le> x" by auto
    have "x < k" using ih(2) s by auto
    then show ?thesis using ih by auto
  qed
qed

lemma pairs_sorted:
  "sorted_wrt (<) ks \<Longrightarrow> sorted_wrt (\<lambda>(a, b) (c, d). b \<le> (c::real)) (zip ks (tl ks))"
proof (induction ks rule: induct_list012)
  case 1
  then show ?case by simp
next
  case (2 x)
  then show ?case by simp
next
  case (3 x y zs)
  from 3(3) have s: "sorted_wrt (<) (y # zs)" by simp
  have "y \<le> c" if "(c, d) \<in> set (zip (y # zs) (tl (y # zs)))" for c d
  proof -
    from pairs_lt[OF s that] have "c \<in> set (y # zs)" by simp
    then show ?thesis using s by auto
  qed
  then show ?case using 3(2)[OF s] by auto
qed

lemma pairs_cover:
  "sorted_wrt (<) ks \<Longrightarrow> a \<in> set ks \<Longrightarrow> c \<in> set ks \<Longrightarrow> a \<le> p \<Longrightarrow> p < c \<Longrightarrow>
   \<exists>(k, k') \<in> set (zip ks (tl ks)). a \<le> k \<and> k \<le> p \<and> p < k' \<and> k' \<le> (c::real)"
proof (induction ks arbitrary: a rule: induct_list012)
  case 1
  then show ?case by simp
next
  case (2 x)
  then show ?case by simp
next
  case (3 x y zs)
  from "3.prems"(1) have s: "sorted_wrt (<) (y # zs)" "x < y" "\<forall>z \<in> set zs. y < z" by auto
  have cy: "c \<in> set (y # zs)" using "3.prems" s by auto
  show ?case
  proof (cases "p < y")
    case True
    then have "a = x" using "3.prems"(2,4) s by auto
    moreover have "y \<le> c" using cy s by auto
    ultimately show ?thesis using True "3.prems"(4) by auto
  next
    case False
    let ?a = "if a = x then y else a"
    have a: "?a \<in> set (y # zs)" "?a \<le> p" using "3.prems"(2,4) False by auto
    from "3.IH"(2)[OF s(1) a(1) cy a(2) "3.prems"(5)] obtain k k' where
      kk: "(k, k') \<in> set (zip (y # zs) (tl (y # zs)))" "?a \<le> k" "k \<le> p" "p < k'" "k' \<le> c" by auto
    have "a \<le> k" using kk(2) s(2) by (auto split: if_splits)
    then show ?thesis using kk by auto
  qed
qed

lemma insort_key_map: "map g (insort_key (\<lambda>x. f (g x)) x ys) = insort_key f (g x) (map g ys)"
  by (induction ys) auto

lemma sort_key_map: "map g (sort_key (\<lambda>x. f (g x)) xs) = sort_key f (map g xs)"
  by (induction xs) (auto simp: insort_key_map)

lemma coords_enumerate:
  "coords (enumerate n bs) = set (map block_start bs) \<union> set (map block_end bs)"
proof -
  have "coords ebs = block_start ` set (map snd ebs) \<union> block_end ` set (map snd ebs)" for ebs :: "(nat \<times> 'a Block) list"
    by (auto simp: coords_def split_def image_iff)
  from this[of "enumerate n bs"] show ?thesis by simp
qed

lemma activeAt_values: "map snd (activeAt (enumerate n bs) k) = valuesAt bs k"
proof -
  let ?ebs = "enumerate n bs"
  have b: "(\<lambda>(i, b). block_start b) = (\<lambda>x::nat \<times> 'a Block. block_start (snd x))"
    by (simp add: split_def)
  have s: "map snd (byStart ?ebs) = sort_key block_start bs"
    unfolding byStart_def b using sort_key_map[of snd block_start ?ebs] by simp
  have "map snd (activeAt ?ebs k) = map block_value (map snd (filter (\<lambda>x. liveAt k (snd x)) (byStart ?ebs)))"
    by (simp add: activeAt_def split_def comp_def)
  also have "\<dots> = map block_value (filter (liveAt k) (map snd (byStart ?ebs)))"
    by (simp add: filter_map comp_def)
  finally show ?thesis by (simp add: s valuesAt_def)
qed

lemma activeAt_empty: "(activeAt (enumerate n bs) k = []) = (valuesAt bs k = [])"
  using activeAt_values[of n bs k] by (metis map_is_Nil_conv)

lemma spansOf_enumerate:
  "spansOf (enumerate n bs) ks =
     map (\<lambda>(k, k'). (k, k', valuesAt bs k)) (filter (\<lambda>(k, k'). valuesAt bs k \<noteq> []) (zip ks (tl ks)))"
  by (simp add: spansOf_def activeAt_values activeAt_empty)

lemma emitted_spans:
  "emitted (concat (map (\<lambda>(k, k', vs).
       [AggCall vs, PostCall \<lparr>block_start = k, block_end = k', block_value = agg vs\<rparr>]) sp))
   = map (\<lambda>(k, k', vs). \<lparr>block_start = k, block_end = k', block_value = agg vs\<rparr>) sp"
  by (induction sp) (auto simp: emitted_def)

lemma aggregated_spans:
  "aggregated (concat (map (\<lambda>(k, k', vs).
       [AggCall vs, PostCall \<lparr>block_start = k, block_end = k', block_value = agg vs\<rparr>]) sp))
   = map (\<lambda>(k, k', vs). vs) sp"
  by (induction sp) (auto simp: aggregated_def)

lemma aggregated_append: "aggregated (xs @ ys) = aggregated xs @ aggregated ys"
  by (simp add: aggregated_def)

lemma aggregate_pure:
  assumes a: "a = pureAggregator pre agg post"
  shows "\<exists>calls. aggregate a items hist = (hist @ calls, Inr (map post (emitted calls))) \<and>
           emitted calls = blockSpans agg (map pre items) \<and>
           aggregated calls = map (\<lambda>e. valuesAt (map pre items) (block_start e)) (blockSpans agg (map pre items))"
proof -
  let ?bs = "map pre items"
  let ?ebs = "enumerate 0 ?bs"
  let ?sp = "spansOf ?ebs (sorted_list_of_set (coords ?ebs))"
  let ?mk = "\<lambda>(k, k', vs). \<lparr>block_start = k, block_end = k', block_value = agg vs\<rparr>"
  let ?calls = "map PreCall items @ concat (map (\<lambda>(k, k', vs). [AggCall vs, PostCall (?mk (k, k', vs))]) ?sp)"
  have pre: "map (itemPreProcessor a) items = map Inr ?bs"
    by (simp add: a pureAggregator_def)
  have t: "createRedBlackTree a items hist = (hist @ map PreCall items, Inr (indexOf ?ebs))"
    using createRedBlackTree_indexOf[OF pre] .
  have sp: "spans (indexOf ?ebs) [] = ?sp"
    by (rule spans_indexOf) simp
  have em: "emitted ?calls = map ?mk ?sp"
    using emitted_spans[of agg ?sp] by (simp add: emitted_append emitted_PreCalls)
  have ag: "aggregated ?calls = map (\<lambda>(k, k', vs). vs) ?sp"
    using aggregated_spans[of agg ?sp] by (simp add: aggregated_append aggregated_PreCalls)
  have r: "aggregate a items hist = (hist @ ?calls, Inr (map post (map ?mk ?sp)))"
    unfolding aggregate_def t using emit_pure[OF a, of ?sp "[]" "hist @ map PreCall items"]
    by (simp add: aggregate_loop_emit sp split_def comp_def)
  have sp': "?sp = map (\<lambda>(k, k'). (k, k', valuesAt ?bs k))
                (filter (\<lambda>(k, k'). valuesAt ?bs k \<noteq> []) (zip (keysOf ?bs) (tl (keysOf ?bs))))"
    by (simp add: spansOf_enumerate coords_enumerate keysOf_def)
  have 1: "map ?mk ?sp = blockSpans agg ?bs"
    unfolding sp' blockSpans_def by (simp add: comp_def split_def)
  have 2: "map (\<lambda>(k, k', vs). vs) ?sp = map (\<lambda>e. valuesAt ?bs (block_start e)) (blockSpans agg ?bs)"
    unfolding sp' blockSpans_def by (simp add: comp_def split_def)
  show ?thesis using r em ag 1 2 by (intro exI[of _ ?calls]) simp
qed

lemma keysOf_props:
  "set (keysOf bs) = set (map block_start bs) \<union> set (map block_end bs)"
  "sorted_wrt (<) (keysOf bs)"
  by (simp_all add: keysOf_def)

lemma blockSpans_mem:
  assumes "e \<in> set (blockSpans agg bs)"
  shows "block_start e < block_end e"
    and "block_start e \<in> set (keysOf bs)"
    and "block_end e \<in> set (keysOf bs)"
    and "\<forall>x \<in> set (keysOf bs). x \<le> block_start e \<or> block_end e \<le> x"
    and "block_value e = agg (valuesAt bs (block_start e))"
    and "valuesAt bs (block_start e) \<noteq> []"
proof -
  from assms obtain k k' where kk: "(k, k') \<in> set (zip (keysOf bs) (tl (keysOf bs)))"
    "valuesAt bs k \<noteq> []" "e = \<lparr>block_start = k, block_end = k', block_value = agg (valuesAt bs k)\<rparr>"
    by (auto simp: blockSpans_def)
  from pairs_lt[OF keysOf_props(2) kk(1)]
  have p: "k < k'" "k \<in> set (keysOf bs)" "k' \<in> set (keysOf bs)"
    "\<forall>x \<in> set (keysOf bs). x \<le> k \<or> k' \<le> x" by auto
  show "block_start e < block_end e" using p(1) kk(3) by simp
  show "block_start e \<in> set (keysOf bs)" using p(2) kk(3) by simp
  show "block_end e \<in> set (keysOf bs)" using p(3) kk(3) by simp
  show "\<forall>x \<in> set (keysOf bs). x \<le> block_start e \<or> block_end e \<le> x" using p(4) kk(3) by simp
  show "block_value e = agg (valuesAt bs (block_start e))" using kk(3) by simp
  show "valuesAt bs (block_start e) \<noteq> []" using kk(2,3) by simp
qed

lemma blockSpans_sorted:
  "sorted_wrt (\<lambda>e e'. block_end e \<le> block_start e') (blockSpans agg bs)"
proof -
  let ?mk = "\<lambda>(k, k'). \<lparr>block_start = k, block_end = k', block_value = agg (valuesAt bs k)\<rparr>"
  have "sorted_wrt (\<lambda>(a, b) (c, d). b \<le> c) (filter (\<lambda>(k, k'). valuesAt bs k \<noteq> []) (zip (keysOf bs) (tl (keysOf bs))))"
    using pairs_sorted[OF keysOf_props(2)] by (rule sorted_wrt_filter)
  then have "sorted_wrt (\<lambda>x y. block_end (?mk x) \<le> block_start (?mk y))
     (filter (\<lambda>(k, k'). valuesAt bs k \<noteq> []) (zip (keysOf bs) (tl (keysOf bs))))"
    by (rule sorted_wrt_mono_rel[rotated]) (auto simp: split_def)
  then show ?thesis unfolding blockSpans_def by (simp add: sorted_wrt_map)
qed

lemma valuesAt_nonempty: "(valuesAt bs k \<noteq> []) = (\<exists>b \<in> set bs. liveAt k b)"
  by (auto simp: valuesAt_def filter_empty_conv)

lemma blockSpans_cover:
  assumes b: "b \<in> set bs" and p: "block_start b \<le> p" "p < block_end b"
  shows "\<exists>e \<in> set (blockSpans agg bs). block_start e \<le> p \<and> p < block_end e"
proof -
  have s: "block_start b \<in> set (keysOf bs)" and e: "block_end b \<in> set (keysOf bs)"
    using b by (auto simp: keysOf_props(1))
  from pairs_cover[OF keysOf_props(2) s e p] obtain k k' where
    kk: "(k, k') \<in> set (zip (keysOf bs) (tl (keysOf bs)))"
      "block_start b \<le> k" "k \<le> p" "p < k'" "k' \<le> block_end b" by auto
  have "liveAt k b" using kk(2,3,4,5) by (auto simp: liveAt_def)
  then have ne: "valuesAt bs k \<noteq> []" using b valuesAt_nonempty by blast
  let ?e = "\<lparr>block_start = k, block_end = k', block_value = agg (valuesAt bs k)\<rparr>"
  have "?e \<in> set (blockSpans agg bs)"
    unfolding blockSpans_def using kk(1) ne by (auto simp: image_iff intro!: bexI[of _ "(k, k')"])
  then show ?thesis using kk(3,4) by (intro bexI[of _ ?e]) simp_all
qed

lemma blockSpans_values:
  assumes v: "\<forall>b \<in> set bs. block_start b \<le> block_end b"
    and e: "e \<in> set (blockSpans agg bs)" and p: "block_start e \<le> p" "p < block_end e"
  shows "valuesAt bs (block_start e) =
         map block_value (sort_key block_start (filter (\<lambda>b. block_start b \<le> p \<and> p < block_end b) bs))"
proof -
  note m = blockSpans_mem[OF e]
  have "filter (liveAt (block_start e)) (sort_key block_start bs) =
        filter (\<lambda>b. block_start b \<le> p \<and> p < block_end b) (sort_key block_start bs)"
  proof (rule filter_cong[OF refl])
    fix b assume "b \<in> set (sort_key block_start bs)"
    then have b: "b \<in> set bs" by simp
    then have k: "block_start b \<in> set (keysOf bs)" "block_end b \<in> set (keysOf bs)"
      by (auto simp: keysOf_props(1))
    have g1: "block_start b \<le> block_start e \<or> block_end e \<le> block_start b" using m(4) k(1) by blast
    have g2: "block_end b \<le> block_start e \<or> block_end e \<le> block_end b" using m(4) k(2) by blast
    have "block_start b \<le> block_end b" using v b by blast
    then show "liveAt (block_start e) b = (block_start b \<le> p \<and> p < block_end b)"
      using g1 g2 p m(1) by (auto simp: liveAt_def)
  qed
  then show ?thesis by (simp add: valuesAt_def filter_sort)
qed

lemma blockSpans_unique:
  assumes "j < length (blockSpans agg bs)" "j' < length (blockSpans agg bs)"
    and "block_start (blockSpans agg bs ! j) \<le> p" "p < block_end (blockSpans agg bs ! j)"
    and "block_start (blockSpans agg bs ! j') \<le> p" "p < block_end (blockSpans agg bs ! j')"
  shows "j = j'"
proof (rule ccontr)
  assume n: "j \<noteq> j'"
  note s = blockSpans_sorted[of agg bs, unfolded sorted_wrt_iff_nth_less]
  show False
  proof (cases "j < j'")
    case True
    then have "block_end (blockSpans agg bs ! j) \<le> block_start (blockSpans agg bs ! j')"
      using s assms(2) by blast
    then show False using assms(4,5) by simp
  next
    case False
    then have "j' < j" using n by simp
    then have "block_end (blockSpans agg bs ! j') \<le> block_start (blockSpans agg bs ! j)"
      using s assms(1) by blast
    then show False using assms(3,6) by simp
  qed
qed

lemma blockSpans_covered:
  assumes v: "\<forall>b \<in> set bs. block_start b \<le> block_end b"
    and e: "e \<in> set (blockSpans agg bs)"
  shows "\<exists>b \<in> set bs. block_start b \<le> block_start e \<and> block_end e \<le> block_end b"
proof -
  note m = blockSpans_mem[OF e]
  from m(6) obtain b where b: "b \<in> set bs" "liveAt (block_start e) b"
    using valuesAt_nonempty by blast
  have "block_start b \<le> block_end b" using v b(1) by blast
  then have l: "block_start b \<le> block_start e" "block_start e < block_end b"
    using b(2) by (auto simp: liveAt_def)
  have "block_end b \<in> set (keysOf bs)" using b(1) by (auto simp: keysOf_props(1))
  then have "block_end b \<le> block_start e \<or> block_end e \<le> block_end b" using m(4) by blast
  then have "block_end e \<le> block_end b" using l(2) by auto
  then show ?thesis using b(1) l(1) by blast
qed

lemmas run_simps =
  aggregate_def createRedBlackTree_def createRBTree_def pushValueToNode_def emptyNodeValue_def
  applyNode_def map_size_def map_values_def Let_def pureAggregator_def rangeBlock_def

lemma enumerate_nth: "enumerate 0 bs = map (\<lambda>i. (i, bs ! i)) [0..<length bs]"
  by (rule nth_equalityI) (simp_all add: nth_enumerate_eq)

lemma comprehension_map_filter: "concat (map (\<lambda>i. if P i then [f i] else []) xs) = map f (filter P xs)"
  by (induction xs) simp_all

lemma nodeOf_enumerate:
  "nv_start (nodeOf (enumerate 0 bs) k) =
     [(i, block_value (bs ! i)). i \<leftarrow> [0..<length bs], block_start (bs ! i) = k]"
  "nv_end (nodeOf (enumerate 0 bs) k) = [i \<leftarrow> [0..<length bs]. block_end (bs ! i) = k]"
  by (simp_all add: nodeOf_def enumerate_nth filter_map comp_def comprehension_map_filter)

lemma bucket_mset:
  "distinct ks \<Longrightarrow>
   mset (concat (map (\<lambda>k. filter (\<lambda>x. f x = k) xs) ks)) = mset (filter (\<lambda>x. f x \<in> set ks) xs)"
proof (induction ks)
  case Nil
  show ?case by simp
next
  case (Cons k ks)
  then have ih: "mset (concat (map (\<lambda>k. filter (\<lambda>x. f x = k) xs) ks)) = mset (filter (\<lambda>x. f x \<in> set ks) xs)"
    and nk: "k \<notin> set ks" by simp_all
  have "mset (filter (\<lambda>x. f x = k) xs) + mset (filter (\<lambda>x. f x \<in> set ks) xs)
        = mset (filter (\<lambda>x. f x \<in> set (k # ks)) xs)"
    using nk by (induction xs) auto
  then show ?case using ih by simp
qed

lemma indexOf_arrival_ids:
  "mset (concat (map (\<lambda>(k, nv). map fst (nv_start nv)) (indexOf ebs))) = mset (map fst ebs)"
proof -
  let ?K = "sorted_list_of_set (coords ebs)"
  have "concat (map (\<lambda>(k, nv). map fst (nv_start nv)) (indexOf ebs))
        = map fst (concat (map (\<lambda>k. filter (\<lambda>x. block_start (snd x) = k) ebs) ?K))"
    by (simp add: indexOf_def treeOf_def nodeOf_def comp_def split_def map_concat)
  moreover have "mset (concat (map (\<lambda>k. filter (\<lambda>x. block_start (snd x) = k) ebs) ?K))
        = mset (filter (\<lambda>x. block_start (snd x) \<in> set ?K) ebs)"
    by (rule bucket_mset) simp
  moreover have "filter (\<lambda>x. block_start (snd x) \<in> set ?K) ebs = ebs"
    using finite_coords[of ebs] by (auto simp: filter_id_conv coords_def split_def intro: rev_image_eqI)
  ultimately show ?thesis by simp
qed

lemma indexOf_departure_ids:
  "mset (concat (map (\<lambda>(k, nv). nv_end nv) (indexOf ebs))) = mset (map fst ebs)"
proof -
  let ?K = "sorted_list_of_set (coords ebs)"
  have "concat (map (\<lambda>(k, nv). nv_end nv) (indexOf ebs))
        = map fst (concat (map (\<lambda>k. filter (\<lambda>x. block_end (snd x) = k) ebs) ?K))"
    by (simp add: indexOf_def treeOf_def nodeOf_def comp_def split_def map_concat)
  moreover have "mset (concat (map (\<lambda>k. filter (\<lambda>x. block_end (snd x) = k) ebs) ?K))
        = mset (filter (\<lambda>x. block_end (snd x) \<in> set ?K) ebs)"
    by (rule bucket_mset) simp
  moreover have "filter (\<lambda>x. block_end (snd x) \<in> set ?K) ebs = ebs"
    using finite_coords[of ebs] by (auto simp: filter_id_conv coords_def split_def intro: rev_image_eqI)
  ultimately show ?thesis by simp
qed

lemma spans_activeSets:
  "spans t m =
     map (\<lambda>((k, k'), m'). (k, k', map snd m'))
       (filter (\<lambda>(kk, m'). m' \<noteq> []) (zip (zip (map fst t) (tl (map fst t))) (activeSets m (map snd t))))"
  by (induction t m rule: spans.induct) auto

lemma valuesAt_degenerate:
  assumes "block_start d = block_end d"
  shows "valuesAt (xs @ d # ys) k = valuesAt (xs @ ys) k"
proof -
  have "\<not> liveAt k d" using assms by (auto simp: liveAt_def)
  then have "filter (liveAt k) (xs @ d # ys) = filter (liveAt k) (xs @ ys)" by simp
  then show ?thesis by (simp add: valuesAt_def filter_sort)
qed

lemma blockSpans_degenerate_key:
  assumes d: "block_start d = block_end d"
    and k: "block_start d \<in> set (map block_start (xs @ ys)) \<union> set (map block_end (xs @ ys))"
  shows "blockSpans agg (xs @ d # ys) = blockSpans agg (xs @ ys)"
proof -
  have "set (map block_start (xs @ d # ys)) \<union> set (map block_end (xs @ d # ys))
        = set (map block_start (xs @ ys)) \<union> set (map block_end (xs @ ys))"
    using d k by auto
  then have "keysOf (xs @ d # ys) = keysOf (xs @ ys)" unfolding keysOf_def by simp
  then show ?thesis unfolding blockSpans_def by (simp add: valuesAt_degenerate[OF d])
qed

lemma blockSpans_at_point:
  assumes v: "\<forall>b \<in> set bs. block_start b \<le> block_end b"
    and v': "\<forall>b \<in> set bs'. block_start b \<le> block_end b"
    and same: "filter (\<lambda>b. block_start b \<le> p \<and> p < block_end b) bs
             = filter (\<lambda>b. block_start b \<le> p \<and> p < block_end b) bs'"
    and e: "e \<in> set (blockSpans agg bs)" "block_start e \<le> p" "p < block_end e"
  shows "\<exists>e' \<in> set (blockSpans agg bs'). block_start e' \<le> p \<and> p < block_end e' \<and> block_value e' = block_value e"
proof -
  from blockSpans_covered[OF v e(1)] obtain b where
    b: "b \<in> set bs" "block_start b \<le> block_start e" "block_end e \<le> block_end b" by blast
  then have "b \<in> set (filter (\<lambda>b. block_start b \<le> p \<and> p < block_end b) bs)" using e(2,3) by simp
  then have b': "b \<in> set bs'" "block_start b \<le> p" "p < block_end b" unfolding same by simp_all
  from blockSpans_cover[OF b', of agg] obtain e' where
    e': "e' \<in> set (blockSpans agg bs')" "block_start e' \<le> p" "p < block_end e'" by blast
  have "block_value e' = block_value e"
    using blockSpans_values[OF v e] blockSpans_values[OF v' e'] same
      blockSpans_mem(5)[OF e(1)] blockSpans_mem(5)[OF e'(1)] by simp
  then show ?thesis using e' by blast
qed

lemma blockSpans_live:
  assumes e: "e \<in> set (blockSpans agg bs)"
  shows "\<exists>b \<in> set bs. block_start b \<le> block_start e \<and>
           (block_end b < block_start b \<or> block_end e \<le> block_end b)"
proof -
  note m = blockSpans_mem[OF e]
  from m(6) obtain b where b: "b \<in> set bs" "liveAt (block_start e) b"
    using valuesAt_nonempty by blast
  have l: "block_start b \<le> block_start e"
    "block_end b < block_start b \<or> block_start e < block_end b"
    using b(2) by (auto simp: liveAt_def)
  have "block_end b \<in> set (keysOf bs)" using b(1) by (auto simp: keysOf_props(1))
  then have "block_end b \<le> block_start e \<or> block_end e \<le> block_end b" using m(4) by blast
  then have "block_end b < block_start b \<or> block_end e \<le> block_end b" using l(2) by auto
  then show ?thesis using b(1) l(1) by blast
qed

lemma scanSpans_spans: "scanSpans t = spans t []"
  by (simp add: scanSpans_def spans_activeSets map_values_def map_size_def)

lemma emit_all_ok:
  "map (spanResult a) sp = map Inr rs \<Longrightarrow>
   emit a sp out hist = (hist @ concat (map (spanCalls a) sp), Inr (out @ rs))"
proof (induction sp arbitrary: rs out hist)
  case Nil
  then show ?case by simp
next
  case (Cons s sp)
  obtain k k' vs where s: "s = (k, k', vs)" by (cases s)
  from Cons.prems obtain r rs' where rs: "rs = r # rs'" "spanResult a s = Inr r"
    "map (spanResult a) sp = map Inr rs'" by (cases rs) auto
  from rs(2) obtain w where w: "aggregationFunction a vs = Inr w"
    "itemPostProcessor a \<lparr>block_start = k, block_end = k', block_value = w\<rparr> = Inr r"
    by (auto simp: spanResult_def s split: sum.splits)
  show ?case using Cons.IH[OF rs(3)] w by (simp add: s rs(1) spanCalls_def)
qed

lemma emit_first_fail:
  "map (spanResult a) sp1 = map Inr rs \<Longrightarrow> spanResult a s = Inl e \<Longrightarrow>
   emit a (sp1 @ s # sp2) out hist = (hist @ concat (map (spanCalls a) (sp1 @ [s])), Inl e)"
proof (induction sp1 arbitrary: rs out hist)
  case Nil
  obtain k k' vs where s: "s = (k, k', vs)" by (cases s)
  show ?case using Nil.prems(2)
    by (auto simp: s spanResult_def spanCalls_def split: sum.splits)
next
  case (Cons x sp1)
  obtain k k' vs where x: "x = (k, k', vs)" by (cases x)
  from Cons.prems(1) obtain r rs' where rs: "rs = r # rs'" "spanResult a x = Inr r"
    "map (spanResult a) sp1 = map Inr rs'" by (cases rs) auto
  from rs(2) obtain w where w: "aggregationFunction a vs = Inr w"
    "itemPostProcessor a \<lparr>block_start = k, block_end = k', block_value = w\<rparr> = Inr r"
    by (auto simp: spanResult_def x split: sum.splits)
  show ?case using Cons.IH[OF rs(3) Cons.prems(2)] w by (simp add: x spanCalls_def)
qed

lemma rb_get_mapval: "rb_get (map (\<lambda>(k, v). (k, f v)) t) key = map_option f (rb_get t key)"
  by (induction t) auto

lemma rb_remove_mapval:
  "rb_remove (map (\<lambda>(k, v). (k, f v)) t) key = map (\<lambda>(k, v). (k, f v)) (rb_remove t key)"
  by (induction t) auto

lemma rb_insert_mapval:
  "rb_insert (map (\<lambda>(k, v). (k, f v)) t) key (f v) = map (\<lambda>(k, v). (k, f v)) (rb_insert t key v)"
  by (induction t) auto

lemma set_rb_insert: "set (rb_insert t key v) = insert (key, v) (set t)"
proof (induction t)
  case Nil
  show ?case by simp
next
  case (Cons x t)
  obtain k w where x: "x = (k, w)" by (cases x)
  show ?case using Cons by (cases "key \<le> k") (auto simp: x)
qed

lemma set_rb_remove: "set (rb_remove t key) \<subseteq> set t"
proof (induction t)
  case Nil
  show ?case by simp
next
  case (Cons x t)
  obtain k w where x: "x = (k, w)" by (cases x)
  show ?case using Cons by (cases "key = k") (auto simp: x)
qed

lemma distinct_rb_remove: "distinct (map snd t) \<Longrightarrow> distinct (map snd (rb_remove t key))"
proof (induction t)
  case Nil
  show ?case by simp
next
  case (Cons x t)
  obtain k p where x: "x = (k, p)" by (cases x)
  have "snd ` set (rb_remove t key) \<subseteq> snd ` set t" using set_rb_remove[of t key] by blast
  then show ?case using Cons by (auto simp: x)
qed

lemma distinct_rb_insert:
  "distinct (map snd t) \<Longrightarrow> v \<notin> snd ` set t \<Longrightarrow> distinct (map snd (rb_insert t key v))"
proof (induction t)
  case Nil
  show ?case by simp
next
  case (Cons x t)
  obtain k w where x: "x = (k, w)" by (cases x)
  show ?case using Cons by (cases "key \<le> k") (auto simp: x set_rb_insert)
qed

lemma rb_remove_absent: "rb_get t key = None \<Longrightarrow> rb_remove t key = t"
  by (induction t) (auto split: if_splits)

lemma rb_get_mem: "rb_get t key = Some p \<Longrightarrow> (key, p) \<in> set t"
  by (induction t) (auto split: if_splits)

lemma rb_remove_present:
  "rb_get t key = Some p \<Longrightarrow> distinct (map snd t) \<Longrightarrow> p \<notin> snd ` set (rb_remove t key)"
proof (induction t)
  case Nil
  then show ?case by simp
next
  case (Cons x t)
  obtain k q where x: "x = (k, q)" by (cases x)
  show ?case
  proof (cases "key = k")
    case True
    then show ?thesis using Cons.prems by (auto simp: x)
  next
    case False
    then have g: "rb_get t key = Some p" using Cons.prems(1) by (simp add: x)
    have "p \<noteq> q" using rb_get_mem[OF g] Cons.prems(2) by (force simp: x)
    then show ?thesis using Cons.IH[OF g] Cons.prems(2) False by (auto simp: x)
  qed
qed

lemma derefTree_cong:
  "\<forall>p \<in> snd ` set t. nodes s' ! p = nodes s ! p \<Longrightarrow> derefTree s' t = derefTree s t"
  by (auto simp: derefTree_def)

lemma pushValueToNode_pushOnto:
  "pushValueToNode tree key pushed =
     rb_insert (rb_remove tree key) key
       (pushOnto pushed (case rb_get tree key of None \<Rightarrow> emptyNodeValue | Some nv \<Rightarrow> nv))"
  by (simp add: pushValueToNode_def pushOnto_def Let_def)

lemma pushValueToNode_store_refines:
  assumes own: "ownedTree n s t" and n: "n \<le> length (nodes s)"
    and p: "pushValueToNode_store s t key pushed = (t', s')"
  shows "ownedTree n s' t'"
    and "derefTree s' t' = pushValueToNode (derefTree s t) key pushed"
    and "take n (nodes s') = take n (nodes s)"
    and "length (nodes s) \<le> length (nodes s')"
    and "maps s' = maps s"
    and "arrays s' = arrays s"
proof -
  let ?f = "\<lambda>s p. nodes s ! p"
  have d: "distinct (map snd t)" and r: "\<forall>p \<in> snd ` set t. n \<le> p \<and> p < length (nodes s)"
    using own by (simp_all add: ownedTree_def)
  have deref: "derefTree s u = map (\<lambda>(k, v). (k, ?f s v)) u" for s :: "('a, 'b) Store" and u
    by (simp add: derefTree_def)
  have all: "ownedTree n s' t' \<and> derefTree s' t' = pushValueToNode (derefTree s t) key pushed \<and>
      take n (nodes s') = take n (nodes s) \<and> length (nodes s) \<le> length (nodes s') \<and>
      maps s' = maps s \<and> arrays s' = arrays s"
  proof (cases "rb_get t key")
    case None
    let ?q = "length (nodes s)"
    let ?obj = "pushOnto pushed emptyNodeValue :: 'a NodeValue"
    have t': "t' = rb_insert t key ?q" and s': "s' = s\<lparr>nodes := nodes s @ [?obj]\<rparr>"
      using p None
      by (auto simp: pushValueToNode_store_def emptyNodeValue_store_def Let_def
          rb_remove_absent pushOnto_def emptyNodeValue_def split: Pushed.splits)
    have old: "\<forall>p \<in> snd ` set t. nodes s' ! p = nodes s ! p"
      using r by (auto simp: s' nth_append)
    have fresh: "?q \<notin> snd ` set t" using r by auto
    have 1: "ownedTree n s' t'"
      unfolding ownedTree_def t'
      using r n distinct_rb_insert[OF d fresh, of key] by (auto simp: set_rb_insert s')
    have "derefTree s' t' = rb_insert (derefTree s' t) key (?f s' ?q)"
      unfolding deref t' by (rule rb_insert_mapval[symmetric])
    also have "\<dots> = rb_insert (derefTree s t) key ?obj"
      using derefTree_cong[OF old] by (simp add: s')
    also have "\<dots> = pushValueToNode (derefTree s t) key pushed"
      unfolding pushValueToNode_pushOnto
      by (simp add: deref rb_get_mapval rb_remove_mapval None rb_remove_absent)
    finally have 2: "derefTree s' t' = pushValueToNode (derefTree s t) key pushed" .
    have 3: "take n (nodes s') = take n (nodes s)" using n by (simp add: s')
    show ?thesis using 1 2 3 by (simp add: s')
  next
    case (Some q)
    let ?obj = "pushOnto pushed (nodes s ! q)"
    have t': "t' = rb_insert (rb_remove t key) key q"
      and s': "s' = s\<lparr>nodes := (nodes s)[q := ?obj]\<rparr>"
      using p Some
      by (auto simp: pushValueToNode_store_def Let_def pushOnto_def split: Pushed.splits)
    have qr: "n \<le> q" "q < length (nodes s)" using r rb_get_mem[OF Some] by force+
    have qn: "q \<notin> snd ` set (rb_remove t key)" using rb_remove_present[OF Some d] .
    have sub: "snd ` set (rb_remove t key) \<subseteq> snd ` set t" using set_rb_remove[of t key] by blast
    have old: "\<forall>p \<in> snd ` set (rb_remove t key). nodes s' ! p = nodes s ! p"
    proof
      fix p assume "p \<in> snd ` set (rb_remove t key)"
      then have "p \<noteq> q" using qn by blast
      then show "nodes s' ! p = nodes s ! p" by (simp add: s')
    qed
    have r': "\<forall>p \<in> snd ` set (rb_remove t key). n \<le> p \<and> p < length (nodes s)"
      using r sub by blast
    have 1: "ownedTree n s' t'"
      unfolding ownedTree_def t'
      using distinct_rb_insert[OF distinct_rb_remove[OF d, of key] qn, of key] r' qr
      by (simp add: set_rb_insert s')
    have "derefTree s' t' = rb_insert (derefTree s' (rb_remove t key)) key (?f s' q)"
      unfolding deref t' by (rule rb_insert_mapval[symmetric])
    also have "\<dots> = rb_insert (derefTree s (rb_remove t key)) key ?obj"
      using derefTree_cong[OF old] qr by (simp add: s')
    also have "\<dots> = pushValueToNode (derefTree s t) key pushed"
      unfolding pushValueToNode_pushOnto
      by (simp add: deref rb_get_mapval rb_remove_mapval Some)
    finally have 2: "derefTree s' t' = pushValueToNode (derefTree s t) key pushed" .
    have 3: "take n (nodes s') = take n (nodes s)" using qr by (simp add: s')
    show ?thesis using 1 2 3 by (simp add: s')
  qed
  from all show "ownedTree n s' t'" "derefTree s' t' = pushValueToNode (derefTree s t) key pushed"
    "take n (nodes s') = take n (nodes s)" "length (nodes s) \<le> length (nodes s')"
    "maps s' = maps s" "arrays s' = arrays s"
    by simp_all
qed

lemma createRedBlackTree_loop_store_refines:
  "ownedTree n s t \<Longrightarrow> n \<le> length (nodes s) \<Longrightarrow>
   createRedBlackTree_loop_store a i items t s = (s', res) \<Longrightarrow>
   take n (nodes s') = take n (nodes s) \<and> length (nodes s) \<le> length (nodes s') \<and>
   maps s' = maps s \<and> arrays s' = arrays s \<and>
   (case res of
      Inl e \<Rightarrow> snd (createRedBlackTree_loop a i items (derefTree s t) hist) = Inl e
    | Inr t' \<Rightarrow> ownedTree n s' t' \<and>
        snd (createRedBlackTree_loop a i items (derefTree s t) hist) = Inr (derefTree s' t'))"
proof (induction items arbitrary: i t s hist)
  case Nil
  then show ?case by auto
next
  case (Cons item items)
  show ?case
  proof (cases "itemPreProcessor a item")
    case (Inl e)
    then show ?thesis using Cons.prems(3) by auto
  next
    case (Inr block)
    obtain t1 s1 where p1: "pushValueToNode_store s t (block_start block)
        (PushStart (i, block_value block)) = (t1, s1)" by (cases "pushValueToNode_store s t (block_start block)
        (PushStart (i, block_value block))")
    obtain t2 s2 where p2: "pushValueToNode_store s1 t1 (block_end block) (PushEnd i) = (t2, s2)"
      by (cases "pushValueToNode_store s1 t1 (block_end block) (PushEnd i)")
    note r1 = pushValueToNode_store_refines[OF Cons.prems(1,2) p1]
    have n1: "n \<le> length (nodes s1)" using Cons.prems(2) r1(4) by simp
    note r2 = pushValueToNode_store_refines[OF r1(1) n1 p2]
    have n2: "n \<le> length (nodes s2)" using n1 r2(4) by simp
    have rec: "createRedBlackTree_loop_store a (Suc i) items t2 s2 = (s', res)"
      using Cons.prems(3) Inr p1 p2 by simp
    note ih = Cons.IH[OF r2(1) n2 rec, of "hist @ [PreCall item]"]
    have pure: "createRedBlackTree_loop a i (item # items) (derefTree s t) hist
        = createRedBlackTree_loop a (Suc i) items (derefTree s2 t2) (hist @ [PreCall item])"
      using Inr by (simp add: Let_def r1(2) r2(2))
    show ?thesis
      unfolding pure using ih r1(3,4,5,6) r2(3,4,5,6) by (auto split: sum.splits)
  qed
qed

lemma aggregate_loop_store_refines:
  "m < length (maps s) \<Longrightarrow> out < length (arrays s) \<Longrightarrow>
   aggregate_loop_store a t m out s = (s', res) \<Longrightarrow>
   nodes s' = nodes s \<and> (\<exists>mv. maps s' = (maps s)[m := mv]) \<and>
   (\<exists>ov. arrays s' = (arrays s)[out := ov]) \<and>
   returned s' res = snd (aggregate_loop a (derefTree s t) (maps s ! m) (arrays s ! out) hist)"
proof (induction a t m out s arbitrary: s' res hist rule: aggregate_loop_store.induct)
  case (1 a m out s)
  then show ?case
    by (auto simp: returned_def derefTree_def intro: exI[of _ "maps s ! m"] exI[of _ "arrays s ! out"])
next
  case (2 a n m out s)
  then show ?case
    by (auto simp: returned_def derefTree_def intro: exI[of _ "maps s ! m"] exI[of _ "arrays s ! out"])
next
  case (3 a start p nxt p' rest m out s)
  let ?mv = "applyNode (maps s ! m) (nodes s ! p)"
  let ?s1 = "s\<lparr>maps := (maps s)[m := ?mv]\<rparr>"
  let ?t' = "(nxt, p') # rest"
  have m1: "maps ?s1 ! m = ?mv" using "3.prems"(1) by simp
  have l1: "m < length (maps ?s1)" "out < length (arrays ?s1)" using "3.prems"(1,2) by simp_all
  have d1: "derefTree ?s1 u = derefTree s u" for u by (simp add: derefTree_def)
  have dt: "derefTree s ((start, p) # ?t') = (start, nodes s ! p) # derefTree s ?t'"
    by (simp add: derefTree_def)
  have dt': "derefTree s ?t' = (nxt, nodes s ! p') # derefTree s rest"
    by (simp add: derefTree_def)
  show ?case
  proof (cases "map_size ?mv = 0")
    case True
    have rec: "aggregate_loop_store a ?t' m out ?s1 = (s', res)"
      using "3.prems"(3) True m1 by (simp add: Let_def)
    have z: "map_size (maps ?s1 ! m) = 0" using True m1 by simp
    from "3.IH"(1)[OF refl z l1 rec, of hist]
    have ih: "nodes s' = nodes ?s1" "\<exists>mv. maps s' = (maps ?s1)[m := mv]"
      "\<exists>ov. arrays s' = (arrays ?s1)[out := ov]"
      "returned s' res = snd (aggregate_loop a (derefTree ?s1 ?t') (maps ?s1 ! m) (arrays ?s1 ! out) hist)"
      by blast+
    have pure: "aggregate_loop a (derefTree s ((start, p) # ?t')) (maps s ! m) (arrays s ! out) hist
        = aggregate_loop a (derefTree s ?t') ?mv (arrays s ! out) hist"
      unfolding dt dt' using True by (simp add: Let_def)
    have ih4: "returned s' res = snd (aggregate_loop a (derefTree s ?t') ?mv (arrays s ! out) hist)"
      using ih(4) unfolding d1 m1 by simp
    have f1: "nodes s' = nodes s" using ih(1) by simp
    have f2: "\<exists>mv. maps s' = (maps s)[m := mv]" using ih(2) by auto
    have f3: "\<exists>ov. arrays s' = (arrays s)[out := ov]" using ih(3) by auto
    show ?thesis unfolding pure using f1 f2 f3 ih4 by blast
  next
    case False
    have nz: "map_size (maps ?s1 ! m) \<noteq> 0" using False m1 by simp
    show ?thesis
    proof (cases "aggregationFunction a (map_values ?mv)")
      case (Inl e)
      have "s' = ?s1" "res = Inl e" using "3.prems"(3) False m1 Inl by (simp_all add: Let_def)
      moreover have "snd (aggregate_loop a (derefTree s ((start, p) # ?t')) (maps s ! m) (arrays s ! out) hist) = Inl e"
        unfolding dt dt' using False Inl by (simp add: Let_def)
      ultimately show ?thesis
        by (auto simp: returned_def intro: exI[of _ "arrays s ! out"])
    next
      case (Inr w)
      let ?b = "\<lparr>block_start = start, block_end = nxt, block_value = w\<rparr>"
      show ?thesis
      proof (cases "itemPostProcessor a ?b")
        case (Inl e)
        have "s' = ?s1" "res = Inl e" using "3.prems"(3) False m1 Inr Inl by (simp_all add: Let_def)
        moreover have "snd (aggregate_loop a (derefTree s ((start, p) # ?t')) (maps s ! m) (arrays s ! out) hist) = Inl e"
          unfolding dt dt' using False Inr Inl by (simp add: Let_def)
        ultimately show ?thesis
          by (auto simp: returned_def intro: exI[of _ "arrays s ! out"])
      next
        case r: (Inr r)
        let ?s2 = "?s1\<lparr>arrays := (arrays ?s1)[out := arrays ?s1 ! out @ [r]]\<rparr>"
        have rec: "aggregate_loop_store a ?t' m out ?s2 = (s', res)"
          using "3.prems"(3) False m1 Inr r by (simp add: Let_def)
        have l2: "m < length (maps ?s2)" "out < length (arrays ?s2)" using "3.prems"(1,2) by simp_all
        have w': "aggregationFunction a (map_values (maps ?s1 ! m)) = Inr w" using Inr m1 by simp
        from "3.IH"(2)[OF refl nz w' r l2 rec, of "hist @ [AggCall (map_values ?mv), PostCall ?b]"]
        have ih: "nodes s' = nodes ?s2" "\<exists>mv. maps s' = (maps ?s2)[m := mv]"
          "\<exists>ov. arrays s' = (arrays ?s2)[out := ov]"
          "returned s' res = snd (aggregate_loop a (derefTree ?s2 ?t') (maps ?s2 ! m) (arrays ?s2 ! out)
              (hist @ [AggCall (map_values ?mv), PostCall ?b]))"
          by blast+
        have d2: "derefTree ?s2 u = derefTree s u" for u by (simp add: derefTree_def)
        have a2: "arrays ?s2 ! out = arrays s ! out @ [r]" using "3.prems"(2) by simp
        have pure: "aggregate_loop a (derefTree s ((start, p) # ?t')) (maps s ! m) (arrays s ! out) hist
            = aggregate_loop a (derefTree s ?t') ?mv (arrays s ! out @ [r])
                (hist @ [AggCall (map_values ?mv), PostCall ?b])"
          unfolding dt dt' using False Inr r by (simp add: Let_def)
        have m2: "maps ?s2 ! m = ?mv" using "3.prems"(1) by simp
        have ih4: "returned s' res = snd (aggregate_loop a (derefTree s ?t') ?mv (arrays s ! out @ [r])
              (hist @ [AggCall (map_values ?mv), PostCall ?b]))"
          using ih(4) unfolding d2 m2 a2 .
        have f1: "nodes s' = nodes s" using ih(1) by simp
        have f2: "\<exists>mv. maps s' = (maps s)[m := mv]" using ih(2) by auto
        have f3: "\<exists>ov. arrays s' = (arrays s)[out := ov]" using ih(3) by auto
        show ?thesis unfolding pure using f1 f2 f3 ih4 by blast
      qed
    qed
  qed
qed

lemma aggregate_store_refines:
  assumes r: "aggregate_store a items s = (s', res)"
  shows "returned s' res = snd (aggregate a items hist)"
    and "take (length (nodes s)) (nodes s') = nodes s"
    and "\<exists>mv. maps s' = maps s @ [mv]"
    and "\<exists>ov. arrays s' = arrays s @ [ov]"
    and "\<forall>p. res = Inr p \<longrightarrow> p = length (arrays s)"
proof -
  let ?out = "length (arrays s)" and ?m = "length (maps s)"
  let ?s2 = "s\<lparr>arrays := arrays s @ [[]], maps := maps s @ [[]]\<rparr>"
  obtain s3 tr where c: "createRedBlackTree_loop_store a 0 items [] ?s2 = (s3, tr)"
    by (cases "createRedBlackTree_loop_store a 0 items [] ?s2")
  have own: "ownedTree (length (nodes s)) ?s2 []" by (simp add: ownedTree_def)
  have n: "length (nodes s) \<le> length (nodes ?s2)" by simp
  from createRedBlackTree_loop_store_refines[OF own n c, of hist]
  have t: "take (length (nodes s)) (nodes s3) = nodes s" "maps s3 = maps s @ [[]]"
    "arrays s3 = arrays s @ [[]]"
    "case tr of
       Inl e \<Rightarrow> snd (createRedBlackTree_loop a 0 items (derefTree ?s2 []) hist) = Inl e
     | Inr t' \<Rightarrow> ownedTree (length (nodes s)) s3 t' \<and>
         snd (createRedBlackTree_loop a 0 items (derefTree ?s2 []) hist) = Inr (derefTree s3 t')"
    by simp_all
  have d0: "derefTree ?s2 [] = createRBTree" by (simp add: derefTree_def createRBTree_def)
  have all: "returned s' res = snd (aggregate a items hist) \<and>
      take (length (nodes s)) (nodes s') = nodes s \<and>
      (\<exists>mv. maps s' = maps s @ [mv]) \<and> (\<exists>ov. arrays s' = arrays s @ [ov]) \<and>
      (\<forall>p. res = Inr p \<longrightarrow> p = length (arrays s))"
  proof (cases tr)
    case (Inl e)
    have "s' = s3" "res = Inl e"
      using r c Inl by (simp_all add: aggregate_store_def createRedBlackTree_store_def createRBTree_def Let_def)
    moreover have "snd (aggregate a items hist) = Inl e"
      using t(4) Inl unfolding d0
      by (cases "createRedBlackTree_loop a 0 items createRBTree hist")
         (simp add: aggregate_def createRedBlackTree_def)
    ultimately show ?thesis using t(1,2,3) by (simp add: returned_def)
  next
    case (Inr t')
    have run: "aggregate_loop_store a t' ?m ?out s3 = (s', res)"
      using r c Inr by (simp add: aggregate_store_def createRedBlackTree_store_def createRBTree_def Let_def)
    have l: "?m < length (maps s3)" "?out < length (arrays s3)" using t(2,3) by simp_all
    obtain h where cr: "createRedBlackTree_loop a 0 items createRBTree hist = (h, Inr (derefTree s3 t'))"
      using t(4) Inr unfolding d0
      by (cases "createRedBlackTree_loop a 0 items createRBTree hist") simp
    from aggregate_loop_store_refines[OF l run, of h]
    have g: "nodes s' = nodes s3" "\<exists>mv. maps s' = (maps s3)[?m := mv]"
      "\<exists>ov. arrays s' = (arrays s3)[?out := ov]"
      "returned s' res = snd (aggregate_loop a (derefTree s3 t') (maps s3 ! ?m) (arrays s3 ! ?out) h)"
      by blast+
    have 1: "returned s' res = snd (aggregate a items hist)"
      using g(4) cr t(2,3) by (simp add: aggregate_def createRedBlackTree_def)
    have 2: "take (length (nodes s)) (nodes s') = nodes s" using g(1) t(1) by simp
    have 3: "\<exists>mv. maps s' = maps s @ [mv]" using g(2) t(2) by auto
    have 4: "\<exists>ov. arrays s' = arrays s @ [ov]" using g(3) t(3) by auto
    have 5: "\<forall>p. res = Inr p \<longrightarrow> p = length (arrays s)"
    proof (intro allI impI)
      fix p assume "res = Inr p"
      then show "p = length (arrays s)"
        using run by (induction a t' ?m ?out s3 rule: aggregate_loop_store.induct)
          (auto simp: Let_def split: if_splits sum.splits)
    qed
    from 1 2 3 4 5 show ?thesis by blast
  qed
  from all show "returned s' res = snd (aggregate a items hist)"
    "take (length (nodes s)) (nodes s') = nodes s"
    "\<exists>mv. maps s' = maps s @ [mv]" "\<exists>ov. arrays s' = arrays s @ [ov]"
    "\<forall>p. res = Inr p \<longrightarrow> p = length (arrays s)" by blast+
qed

section \<open>The claims\<close>

text \<open>
  C1.  Coverage completeness.  Let the callbacks never throw and let every item be
  normalised to a block with start before end.  For a point \<open>p\<close> that lies in the range
  [start, end) of at least one block, \<^verbatim>\<open>aggregate\<close> returns the formatted emitted
  blocks, exactly one emitted block has a range [start, end) that contains \<open>p\<close>, and its
  value is the aggregation function applied to the values of exactly the blocks whose
  range contains \<open>p\<close>.  These values come in the order of the map: by start of their
  block, blocks with the same start in input order.
\<close>

theorem aggregate_coverage:
  assumes valid: "\<forall>item \<in> set items. block_start (pre item) < block_end (pre item)"
    and covered: "\<exists>item \<in> set items. block_start (pre item) \<le> p \<and> p < block_end (pre item)"
  shows "\<exists>calls. aggregate (pureAggregator pre agg post :: ('i, 'v, 'w, 'r, 'e) Aggregator) items hist
                    = (hist @ calls, Inr (map post (emitted calls))) \<and>
           (\<exists>!j. j < length (emitted calls) \<and>
                 block_start (emitted calls ! j) \<le> p \<and> p < block_end (emitted calls ! j)) \<and>
           (\<forall>e \<in> set (emitted calls). block_start e \<le> p \<and> p < block_end e \<longrightarrow>
              block_value e = agg (map block_value (sort_key block_start
                 (filter (\<lambda>b. block_start b \<le> p \<and> p < block_end b) (map pre items)))))"
proof -
  let ?a = "pureAggregator pre agg post :: ('i, 'v, 'w, 'r, 'e) Aggregator"
  let ?bs = "map pre items"
  let ?E = "blockSpans agg ?bs"
  from aggregate_pure[of ?a pre agg post items hist, OF refl] obtain calls where
    c: "aggregate ?a items hist = (hist @ calls, Inr (map post (emitted calls)))"
       "emitted calls = ?E" by blast
  have v: "\<forall>b \<in> set ?bs. block_start b \<le> block_end b" using valid by auto
  from covered obtain b where b: "b \<in> set ?bs" "block_start b \<le> p" "p < block_end b" by auto
  from blockSpans_cover[OF b, of agg] obtain e where
    e: "e \<in> set ?E" "block_start e \<le> p" "p < block_end e" by blast
  then obtain j where j: "j < length ?E" "?E ! j = e" by (auto simp: in_set_conv_nth)
  have ex1: "\<exists>!j. j < length ?E \<and> block_start (?E ! j) \<le> p \<and> p < block_end (?E ! j)"
  proof (rule ex1I[of _ j])
    show "j < length ?E \<and> block_start (?E ! j) \<le> p \<and> p < block_end (?E ! j)"
      using j e by simp
  next
    fix j' assume "j' < length ?E \<and> block_start (?E ! j') \<le> p \<and> p < block_end (?E ! j')"
    then show "j' = j" using blockSpans_unique[of j' agg ?bs j p] j e by simp
  qed
  have val: "\<forall>e \<in> set ?E. block_start e \<le> p \<and> p < block_end e \<longrightarrow>
              block_value e = agg (map block_value (sort_key block_start
                 (filter (\<lambda>b. block_start b \<le> p \<and> p < block_end b) ?bs)))"
  proof (intro ballI impI)
    fix e assume e: "e \<in> set ?E" and p: "block_start e \<le> p \<and> p < block_end e"
    from p have p1: "block_start e \<le> p" and p2: "p < block_end e" by simp_all
    from blockSpans_values[OF v e p1 p2] blockSpans_mem(5)[OF e]
    show "block_value e = agg (map block_value (sort_key block_start
                 (filter (\<lambda>b. block_start b \<le> p \<and> p < block_end b) ?bs)))" by simp
  qed
  show ?thesis using c(1) ex1 val unfolding c(2)[symmetric] by blast
qed

text \<open>The theorem at a concrete input.\<close>

theorem aggregate_coverage_witness:
  "block_start (rangeBlock (0, 10, ''A'')) < block_end (rangeBlock (0, 10, ''A'')) \<and>
   block_start (rangeBlock (5, 15, ''B'')) < block_end (rangeBlock (5, 15, ''B'')) \<and>
   block_start (rangeBlock (0, 10, ''A'')) \<le> 7 \<and> 7 < block_end (rangeBlock (0, 10, ''A'')) \<and>
   (\<exists>calls. aggregate listAggregator [(0, 10, ''A''), (5, 15, ''B'')] []
                = ([] @ calls, Inr (map (\<lambda>b. b) (emitted calls))) \<and>
       (\<exists>!j. j < length (emitted calls) \<and>
             block_start (emitted calls ! j) \<le> 7 \<and> 7 < block_end (emitted calls ! j)) \<and>
       (\<forall>e \<in> set (emitted calls). block_start e \<le> 7 \<and> 7 < block_end e \<longrightarrow>
          block_value e = map block_value (sort_key block_start
             (filter (\<lambda>b. block_start b \<le> 7 \<and> 7 < block_end b)
                (map rangeBlock [(0, 10, ''A''), (5, 15, ''B'')]))))) \<and>
   snd (aggregate listAggregator [(0, 10, ''A''), (5, 15, ''B'')] []) =
     Inr [\<lparr>block_start = 0, block_end = 5, block_value = [''A'']\<rparr>,
          \<lparr>block_start = 5, block_end = 10, block_value = [''A'', ''B'']\<rparr>,
          \<lparr>block_start = 10, block_end = 15, block_value = [''B'']\<rparr>]"
proof -
  let ?items = "[(0, 10, ''A''), (5, 15, ''B'')] :: (real \<times> real \<times> string) list"
  have h1: "\<forall>item \<in> set ?items. block_start (rangeBlock item) < block_end (rangeBlock item)"
    by (simp add: rangeBlock_def)
  have h2: "\<exists>item \<in> set ?items. block_start (rangeBlock item) \<le> 7 \<and> 7 < block_end (rangeBlock item)"
    by (simp add: rangeBlock_def)
  have v: "block_start (rangeBlock (0, 10, ''A'')) < block_end (rangeBlock (0, 10, ''A''))" "block_start (rangeBlock (5, 15, ''B'')) < block_end (rangeBlock (5, 15, ''B''))"
    "block_start (rangeBlock (0, 10, ''A'')) \<le> 7" "7 < block_end (rangeBlock (0, 10, ''A''))"
    by (simp_all add: rangeBlock_def)
  have out: "snd (aggregate listAggregator ?items []) =
     Inr [\<lparr>block_start = 0, block_end = 5, block_value = [''A'']\<rparr>,
          \<lparr>block_start = 5, block_end = 10, block_value = [''A'', ''B'']\<rparr>,
          \<lparr>block_start = 10, block_end = 15, block_value = [''B'']\<rparr>]"
    by (simp add: listAggregator_def run_simps)
  from aggregate_coverage[OF h1 h2, of "\<lambda>vs. vs" "\<lambda>b. b" "[]"] v out
  show ?thesis unfolding listAggregator_def by (intro conjI)
qed

text \<open>
  C2.  The claim as the specification words it: at the current key \<open>k\<close>, after the
  arrivals and departures of \<open>k\<close>, the block from the previous key to \<open>k\<close> is emitted
  with the aggregate of the Active Set as it is then.  On the ranges A = [0, 10) and
  B = [5, 15) that scan emits [0, 5) with A and B and [5, 10) with B; the code emits
  [0, 5) with A, [5, 10) with A and B, [10, 15) with B, which is the output the
  specification gives for this scenario.
\<close>

theorem scan_emits_previous_span_counterexample:
  "snd (aggregate listAggregator [(0, 10, ''A''), (5, 15, ''B'')] []) =
     Inr [\<lparr>block_start = 0, block_end = 5, block_value = [''A'']\<rparr>,
          \<lparr>block_start = 5, block_end = 10, block_value = [''A'', ''B'']\<rparr>,
          \<lparr>block_start = 10, block_end = 15, block_value = [''B'']\<rparr>] \<and>
   snd (aggregate_spec listAggregator [(0, 10, ''A''), (5, 15, ''B'')] []) =
     Inr [\<lparr>block_start = 0, block_end = 5, block_value = [''A'', ''B'']\<rparr>,
          \<lparr>block_start = 5, block_end = 10, block_value = [''B'']\<rparr>] \<and>
   snd (aggregate listAggregator [(0, 10, ''A''), (5, 15, ''B'')] []) \<noteq>
   snd (aggregate_spec listAggregator [(0, 10, ''A''), (5, 15, ''B'')] [])"
  by (simp add: listAggregator_def aggregate_spec_def run_simps)

text \<open>
  C2, amended.  At every key \<open>k\<close> of the tree that has a following key \<open>k'\<close>, after the
  arrivals of \<open>k\<close> have been set in the map and its departures deleted, the scan emits
  through the post-processor the block from \<open>k\<close> to \<open>k'\<close> whose value is the
  aggregation function applied to the values of the map, whenever the map is not empty.
  Nothing else is emitted; the node at the last key is never applied.
\<close>

theorem scan_emits_following_span:
  "\<exists>calls. aggregate_loop (pureAggregator pre agg post :: ('i, 'v, 'w, 'r, 'e) Aggregator) t [] [] hist
              = (hist @ calls, Inr (map post (emitted calls))) \<and>
     emitted calls =
       map (\<lambda>((k, k'), m). \<lparr>block_start = k, block_end = k', block_value = agg (map_values m)\<rparr>)
         (filter (\<lambda>(kk, m). map_size m \<noteq> 0)
            (zip (zip (map fst t) (tl (map fst t))) (activeSets [] (map snd t))))"
proof -
  let ?a = "pureAggregator pre agg post :: ('i, 'v, 'w, 'r, 'e) Aggregator"
  let ?sp = "spans t []"
  let ?calls = "concat (map (\<lambda>(k, k', vs).
      [AggCall vs, PostCall \<lparr>block_start = k, block_end = k', block_value = agg vs\<rparr>]) ?sp)"
  have em: "emitted ?calls =
      map (\<lambda>(k, k', vs). \<lparr>block_start = k, block_end = k', block_value = agg vs\<rparr>) ?sp"
    by (rule emitted_spans)
  have mp: "map post (emitted ?calls) =
      map (\<lambda>(k, k', vs). post \<lparr>block_start = k, block_end = k', block_value = agg vs\<rparr>) ?sp"
    unfolding em by (simp add: split_def comp_def)
  have r: "aggregate_loop ?a t [] [] hist = (hist @ ?calls, Inr (map post (emitted ?calls)))"
    unfolding mp aggregate_loop_emit
    using emit_pure[of ?a pre agg post ?sp "[]" hist, OF refl] by simp
  have e: "emitted ?calls =
       map (\<lambda>((k, k'), m). \<lparr>block_start = k, block_end = k', block_value = agg (map_values m)\<rparr>)
         (filter (\<lambda>(kk, m). map_size m \<noteq> 0)
            (zip (zip (map fst t) (tl (map fst t))) (activeSets [] (map snd t))))"
    unfolding emitted_spans spans_activeSets
    by (simp add: comp_def split_def map_values_def map_size_def)
  from r e show ?thesis by (intro exI[of _ ?calls] conjI)
qed

text \<open>The theorem at a concrete input.\<close>

theorem scan_emits_following_span_witness:
  "\<exists>calls. aggregate_loop listAggregator
       [(0, \<lparr>nv_start = [(0, ''A'')], nv_end = []\<rparr>), (5, \<lparr>nv_start = [(1, ''B'')], nv_end = []\<rparr>),
        (10, \<lparr>nv_start = [], nv_end = [0]\<rparr>), (15, \<lparr>nv_start = [], nv_end = [1]\<rparr>)] [] [] []
      = ([] @ calls, Inr (map (\<lambda>b. b) (emitted calls))) \<and>
     emitted calls =
       [\<lparr>block_start = 0, block_end = 5, block_value = [''A'']\<rparr>,
        \<lparr>block_start = 5, block_end = 10, block_value = [''A'', ''B'']\<rparr>,
        \<lparr>block_start = 10, block_end = 15, block_value = [''B'']\<rparr>]"
proof -
  let ?t = "[(0, \<lparr>nv_start = [(0, ''A'')], nv_end = []\<rparr>), (5, \<lparr>nv_start = [(1, ''B'')], nv_end = []\<rparr>),
        (10, \<lparr>nv_start = [], nv_end = [0]\<rparr>), (15, \<lparr>nv_start = [], nv_end = [1]\<rparr>)]
          :: string NodeValue Tree"
  from scan_emits_following_span[of rangeBlock "\<lambda>vs. vs" "\<lambda>b. b" ?t "[]"] obtain calls where
    c: "aggregate_loop listAggregator ?t [] [] [] = ([] @ calls, Inr (map (\<lambda>b. b) (emitted calls)))"
       "emitted calls =
         map (\<lambda>((k, k'), m). \<lparr>block_start = k, block_end = k', block_value = map_values m\<rparr>)
           (filter (\<lambda>(kk, m). map_size m \<noteq> 0)
              (zip (zip (map fst ?t) (tl (map fst ?t))) (activeSets [] (map snd ?t))))"
    unfolding listAggregator_def by blast
  have "emitted calls =
       [\<lparr>block_start = 0, block_end = 5, block_value = [''A'']\<rparr>,
        \<lparr>block_start = 5, block_end = 10, block_value = [''A'', ''B'']\<rparr>,
        \<lparr>block_start = 10, block_end = 15, block_value = [''B'']\<rparr>]"
    unfolding c(2) by (simp add: applyNode_def map_size_def map_values_def)
  with c(1) show ?thesis by (intro exI[of _ calls] conjI)
qed

text \<open>
  C3.  Half-open coverage.  A node's arrivals are set before its departures are deleted
  (\<open>applyNode\<close>), and both before the span that begins at its key is emitted.  Let the
  callbacks never throw and every block have start at or before end, so that a block may
  start and end at the same key.  Then an emitted span begins at the start of every
  block with start before end, and the value of every emitted span is the aggregate of
  exactly the blocks \<open>b\<close> with start of \<open>b\<close> at or before the start of the span and
  the start of the span before the end of \<open>b\<close>.  So a block contributes to the span
  that begins at its start and to no span that begins at or after its end, also when
  another block starts where it ends; and a block whose start is its end, set and
  deleted at one node, contributes to no span, which it would if the departures were
  deleted first.
\<close>

theorem aggregate_half_open:
  assumes valid: "\<forall>item \<in> set items. block_start (pre item) \<le> block_end (pre item)"
  shows "\<exists>calls. fst (aggregate (pureAggregator pre agg post :: ('i, 'v, 'w, 'r, 'e) Aggregator) items hist) = hist @ calls \<and>
           (\<forall>item \<in> set items. block_start (pre item) < block_end (pre item) \<longrightarrow>
              (\<exists>e \<in> set (emitted calls). block_start e = block_start (pre item))) \<and>
           (\<forall>e \<in> set (emitted calls).
              block_value e = agg (map block_value (sort_key block_start
                 (filter (\<lambda>b. block_start b \<le> block_start e \<and> block_start e < block_end b)
                    (map pre items)))))"
proof -
  let ?a = "pureAggregator pre agg post :: ('i, 'v, 'w, 'r, 'e) Aggregator"
  let ?bs = "map pre items"
  let ?E = "blockSpans agg ?bs"
  from aggregate_pure[of ?a pre agg post items hist, OF refl] obtain calls where
    c: "aggregate ?a items hist = (hist @ calls, Inr (map post (emitted calls)))"
       "emitted calls = ?E" by blast
  have v: "\<forall>b \<in> set ?bs. block_start b \<le> block_end b" using valid by auto
  have 1: "\<exists>e \<in> set ?E. block_start e = block_start (pre item)"
    if i: "item \<in> set items" and lt: "block_start (pre item) < block_end (pre item)" for item
  proof -
    have b: "pre item \<in> set ?bs" using i by simp
    from blockSpans_cover[OF b order_refl lt, of agg] obtain e where
      e: "e \<in> set ?E" "block_start e \<le> block_start (pre item)" "block_start (pre item) < block_end e"
      by blast
    have "block_start (pre item) \<in> set (keysOf ?bs)" using b by (auto simp: keysOf_props(1))
    then have "block_start (pre item) \<le> block_start e \<or> block_end e \<le> block_start (pre item)"
      using blockSpans_mem(4)[OF e(1)] by blast
    then have "block_start e = block_start (pre item)" using e(2,3) by auto
    then show ?thesis using e(1) by blast
  qed
  have 2: "block_value e = agg (map block_value (sort_key block_start
                 (filter (\<lambda>b. block_start b \<le> block_start e \<and> block_start e < block_end b) ?bs)))"
    if e: "e \<in> set ?E" for e
    using blockSpans_values[OF v e order_refl blockSpans_mem(1)[OF e]] blockSpans_mem(5)[OF e]
    by simp
  have f: "fst (aggregate ?a items hist) = hist @ calls"
    using c(1) by simp
  have a1: "\<forall>item \<in> set items. block_start (pre item) < block_end (pre item) \<longrightarrow>
              (\<exists>e \<in> set (emitted calls). block_start e = block_start (pre item))"
    unfolding c(2) using 1 by blast
  have a2: "\<forall>e \<in> set (emitted calls).
              block_value e = agg (map block_value (sort_key block_start
                 (filter (\<lambda>b. block_start b \<le> block_start e \<and> block_start e < block_end b)
                    (map pre items))))"
    unfolding c(2) using 2 by blast
  from f a1 a2 show ?thesis by blast
qed

text \<open>The theorem at a concrete input.\<close>

theorem aggregate_half_open_witness:
  "block_start (rangeBlock (0, 5, ''A'')) \<le> block_end (rangeBlock (0, 5, ''A'')) \<and>
   block_start (rangeBlock (5, 5, ''D'')) \<le> block_end (rangeBlock (5, 5, ''D'')) \<and>
   block_start (rangeBlock (5, 10, ''B'')) \<le> block_end (rangeBlock (5, 10, ''B'')) \<and>
   (\<exists>calls. fst (aggregate listAggregator [(0, 5, ''A''), (5, 5, ''D''), (5, 10, ''B'')] []) = [] @ calls \<and>
       (\<forall>item \<in> set [(0, 5, ''A''), (5, 5, ''D''), (5, 10, ''B'')].
          block_start (rangeBlock item) < block_end (rangeBlock item) \<longrightarrow>
          (\<exists>e \<in> set (emitted calls). block_start e = block_start (rangeBlock item))) \<and>
       (\<forall>e \<in> set (emitted calls).
          block_value e = map block_value (sort_key block_start
             (filter (\<lambda>b. block_start b \<le> block_start e \<and> block_start e < block_end b)
                (map rangeBlock [(0, 5, ''A''), (5, 5, ''D''), (5, 10, ''B'')]))))) \<and>
   snd (aggregate listAggregator [(0, 5, ''A''), (5, 5, ''D''), (5, 10, ''B'')] []) =
     Inr [\<lparr>block_start = 0, block_end = 5, block_value = [''A'']\<rparr>,
          \<lparr>block_start = 5, block_end = 10, block_value = [''B'']\<rparr>]"
proof -
  let ?items = "[(0, 5, ''A''), (5, 5, ''D''), (5, 10, ''B'')] :: (real \<times> real \<times> string) list"
  have h1: "\<forall>item \<in> set ?items. block_start (rangeBlock item) \<le> block_end (rangeBlock item)"
    by (simp add: rangeBlock_def)
  have v: "block_start (rangeBlock (0, 5, ''A'')) \<le> block_end (rangeBlock (0, 5, ''A''))"
    "block_start (rangeBlock (5, 5, ''D'')) \<le> block_end (rangeBlock (5, 5, ''D''))"
    "block_start (rangeBlock (5, 10, ''B'')) \<le> block_end (rangeBlock (5, 10, ''B''))"
    by (simp_all add: rangeBlock_def)
  have out: "snd (aggregate listAggregator ?items []) =
     Inr [\<lparr>block_start = 0, block_end = 5, block_value = [''A'']\<rparr>,
          \<lparr>block_start = 5, block_end = 10, block_value = [''B'']\<rparr>]"
    by (simp add: listAggregator_def run_simps)
  from aggregate_half_open[OF h1, of "\<lambda>vs. vs" "\<lambda>b. b" "[]"] v out
  show ?thesis unfolding listAggregator_def by (intro conjI)
qed

text \<open>
  C4.  Ordering.  For every input and callbacks that never throw, the result is the list
  of the post-processor's results on the emitted blocks, one per emitted block and in
  their order, with one call of the aggregation function per emitted block; every emitted
  block has start before end; the end of an emitted block is at most the start of every
  later one; and a gap between two consecutive emitted blocks holds no point that lies
  in the range [start, end) of an input block.
\<close>

theorem aggregate_ordering:
  "\<exists>calls. aggregate (pureAggregator pre agg post :: ('i, 'v, 'w, 'r, 'e) Aggregator) items hist
              = (hist @ calls, Inr (map post (emitted calls))) \<and>
     length (aggregated calls) = length (emitted calls) \<and>
     (\<forall>e \<in> set (emitted calls). block_start e < block_end e) \<and>
     sorted_wrt (\<lambda>e e'. block_end e \<le> block_start e') (emitted calls) \<and>
     (\<forall>j p. Suc j < length (emitted calls) \<longrightarrow>
        block_end (emitted calls ! j) \<le> p \<longrightarrow> p < block_start (emitted calls ! Suc j) \<longrightarrow>
        \<not> (\<exists>item \<in> set items. block_start (pre item) \<le> p \<and> p < block_end (pre item)))"
proof -
  let ?a = "pureAggregator pre agg post :: ('i, 'v, 'w, 'r, 'e) Aggregator"
  let ?bs = "map pre items"
  let ?E = "blockSpans agg ?bs"
  from aggregate_pure[of ?a pre agg post items hist, OF refl] obtain calls where
    c: "aggregate ?a items hist = (hist @ calls, Inr (map post (emitted calls)))"
       "emitted calls = ?E"
       "aggregated calls = map (\<lambda>e. valuesAt ?bs (block_start e)) ?E" by blast
  have 0: "length (aggregated calls) = length (emitted calls)" using c(2,3) by simp
  have 1: "\<forall>e \<in> set ?E. block_start e < block_end e" using blockSpans_mem(1) by blast
  have 2: "sorted_wrt (\<lambda>e e'. block_end e \<le> block_start e') ?E" by (rule blockSpans_sorted)
  have 3: "\<not> (\<exists>item \<in> set items. block_start (pre item) \<le> p \<and> p < block_end (pre item))"
    if j: "Suc j < length ?E" and p: "block_end (?E ! j) \<le> p" "p < block_start (?E ! Suc j)" for j p
  proof
    assume "\<exists>item \<in> set items. block_start (pre item) \<le> p \<and> p < block_end (pre item)"
    then obtain b where b: "b \<in> set ?bs" "block_start b \<le> p" "p < block_end b" by auto
    from blockSpans_cover[OF b, of agg] obtain e where
      e: "e \<in> set ?E" "block_start e \<le> p" "p < block_end e" by blast
    then obtain m where m: "m < length ?E" "?E ! m = e" by (auto simp: in_set_conv_nth)
    note s = 2[unfolded sorted_wrt_iff_nth_less]
    have lt: "block_start (?E ! i) < block_end (?E ! i)" if "i < length ?E" for i
      using 1 that by simp
    consider "m < j" | "m = j" | "m = Suc j" | "Suc j < m" by linarith
    then show False
    proof cases
      case 1
      then have "block_end (?E ! m) \<le> block_start (?E ! j)" using s j by simp
      then show False using lt[of j] p(1) e(3) m(2) j by simp
    next
      case 2
      then show False using p(1) e(3) m(2) by simp
    next
      case 3
      then show False using p(2) e(2) m(2) by simp
    next
      case 4
      then have "block_end (?E ! Suc j) \<le> block_start (?E ! m)" using s m(1) by simp
      then show False using lt[OF j] p(2) e(2) m(2) by simp
    qed
  qed
  show ?thesis using c(1) 0 1 2 3 unfolding c(2)[symmetric] by blast
qed

text \<open>The theorem at a concrete input.\<close>

theorem aggregate_ordering_witness:
  "(\<exists>calls. aggregate listAggregator [(0, 5, ''A''), (10, 15, ''B'')] []
              = ([] @ calls, Inr (map (\<lambda>b. b) (emitted calls))) \<and>
     length (aggregated calls) = length (emitted calls) \<and>
     (\<forall>e \<in> set (emitted calls). block_start e < block_end e) \<and>
     sorted_wrt (\<lambda>e e'. block_end e \<le> block_start e') (emitted calls) \<and>
     (\<forall>j p. Suc j < length (emitted calls) \<longrightarrow>
        block_end (emitted calls ! j) \<le> p \<longrightarrow> p < block_start (emitted calls ! Suc j) \<longrightarrow>
        \<not> (\<exists>item \<in> set [(0, 5, ''A''), (10, 15, ''B'')].
             block_start (rangeBlock item) \<le> p \<and> p < block_end (rangeBlock item)))) \<and>
   emitted (fst (aggregate listAggregator [(0, 5, ''A''), (10, 15, ''B'')] [])) =
     [\<lparr>block_start = 0, block_end = 5, block_value = [''A'']\<rparr>,
      \<lparr>block_start = 10, block_end = 15, block_value = [''B'']\<rparr>] \<and>
   \<not> (\<exists>item \<in> set [(0, 5, ''A''), (10, 15, ''B'')].
        block_start (rangeBlock item) \<le> 7 \<and> 7 < block_end (rangeBlock item))"
proof -
  let ?items = "[(0, 5, ''A''), (10, 15, ''B'')] :: (real \<times> real \<times> string) list"
  have out: "emitted (fst (aggregate listAggregator ?items [])) =
     [\<lparr>block_start = 0, block_end = 5, block_value = [''A'']\<rparr>,
      \<lparr>block_start = 10, block_end = 15, block_value = [''B'']\<rparr>]"
    by (simp add: listAggregator_def run_simps emitted_def)
  have gap: "\<not> (\<exists>item \<in> set ?items.
        block_start (rangeBlock item) \<le> 7 \<and> 7 < block_end (rangeBlock item))"
    by (simp add: rangeBlock_def)
  from aggregate_ordering[of rangeBlock "\<lambda>vs. vs" "\<lambda>b. b" ?items "[]"] out gap
  show ?thesis unfolding listAggregator_def by (intro conjI)
qed

text \<open>
  C5.  No spurious spans.  Let the callbacks never throw; the blocks are any.  The calls
  of the aggregation function are those for the emitted blocks, one for each and in
  their order.  It is never called on an empty list of values.  Every emitted block
  begins at or after the start of an input block that is in the map over all of it:
  one that ends at or after the end of the emitted block, or one whose end is before its
  start, which no node deletes.  If every input block has start at or before end, every
  emitted block lies inside the range of some input block.  So no block is emitted, and
  neither callback is called, for a gap between the input ranges.
\<close>

theorem aggregate_no_spurious_spans:
  "\<exists>calls. fst (aggregate (pureAggregator pre agg post :: ('i, 'v, 'w, 'r, 'e) Aggregator) items hist) = hist @ calls \<and>
     map agg (aggregated calls) = map block_value (emitted calls) \<and>
     (\<forall>vs \<in> set (aggregated calls). vs \<noteq> []) \<and>
     (\<forall>e \<in> set (emitted calls). \<exists>item \<in> set items.
        block_start (pre item) \<le> block_start e \<and>
        (block_end (pre item) < block_start (pre item) \<or> block_end e \<le> block_end (pre item))) \<and>
     ((\<forall>item \<in> set items. block_start (pre item) \<le> block_end (pre item)) \<longrightarrow>
      (\<forall>e \<in> set (emitted calls). \<exists>item \<in> set items.
         block_start (pre item) \<le> block_start e \<and> block_end e \<le> block_end (pre item)))"
proof -
  let ?a = "pureAggregator pre agg post :: ('i, 'v, 'w, 'r, 'e) Aggregator"
  let ?bs = "map pre items"
  let ?E = "blockSpans agg ?bs"
  from aggregate_pure[of ?a pre agg post items hist, OF refl] obtain calls where
    c: "aggregate ?a items hist = (hist @ calls, Inr (map post (emitted calls)))"
       "emitted calls = ?E"
       "aggregated calls = map (\<lambda>e. valuesAt ?bs (block_start e)) ?E" by blast
  have f: "fst (aggregate ?a items hist) = hist @ calls"
    using c(1) by simp
  have 0: "map agg (aggregated calls) = map block_value (emitted calls)"
    unfolding c(2,3) using blockSpans_mem(5)[of _ agg ?bs] by simp
  have 1: "\<forall>vs \<in> set (aggregated calls). vs \<noteq> []"
    unfolding c(3) using blockSpans_mem(6)[of _ agg ?bs] by auto
  have 2: "\<forall>e \<in> set (emitted calls). \<exists>item \<in> set items.
        block_start (pre item) \<le> block_start e \<and>
        (block_end (pre item) < block_start (pre item) \<or> block_end e \<le> block_end (pre item))"
  proof
    fix e assume "e \<in> set (emitted calls)"
    then have "e \<in> set ?E" unfolding c(2) .
    from blockSpans_live[OF this]
    show "\<exists>item \<in> set items. block_start (pre item) \<le> block_start e \<and>
        (block_end (pre item) < block_start (pre item) \<or> block_end e \<le> block_end (pre item))"
      by auto
  qed
  have 3: "(\<forall>item \<in> set items. block_start (pre item) \<le> block_end (pre item)) \<longrightarrow>
      (\<forall>e \<in> set (emitted calls). \<exists>item \<in> set items.
         block_start (pre item) \<le> block_start e \<and> block_end e \<le> block_end (pre item))"
  proof (intro impI ballI)
    fix e assume v: "\<forall>item \<in> set items. block_start (pre item) \<le> block_end (pre item)"
      and "e \<in> set (emitted calls)"
    then have e: "e \<in> set ?E" unfolding c(2) by simp
    have v': "\<forall>b \<in> set ?bs. block_start b \<le> block_end b" using v by auto
    from blockSpans_covered[OF v' e]
    show "\<exists>item \<in> set items. block_start (pre item) \<le> block_start e \<and> block_end e \<le> block_end (pre item)"
      by auto
  qed
  from f 0 1 2 3 show ?thesis by (intro exI[of _ calls] conjI)
qed

text \<open>The theorem at a concrete input.\<close>

theorem aggregate_no_spurious_spans_witness:
  "block_start (rangeBlock (0, 5, ''A'')) \<le> block_end (rangeBlock (0, 5, ''A'')) \<and>
   block_start (rangeBlock (7, 7, ''D'')) \<le> block_end (rangeBlock (7, 7, ''D'')) \<and>
   block_start (rangeBlock (10, 15, ''B'')) \<le> block_end (rangeBlock (10, 15, ''B'')) \<and>
   (\<exists>calls. fst (aggregate listAggregator [(0, 5, ''A''), (7, 7, ''D''), (10, 15, ''B'')] []) = [] @ calls \<and>
       map (\<lambda>vs. vs) (aggregated calls) = map block_value (emitted calls) \<and>
       (\<forall>vs \<in> set (aggregated calls). vs \<noteq> []) \<and>
       (\<forall>e \<in> set (emitted calls). \<exists>item \<in> set [(0, 5, ''A''), (7, 7, ''D''), (10, 15, ''B'')].
          block_start (rangeBlock item) \<le> block_start e \<and> block_end e \<le> block_end (rangeBlock item))) \<and>
   fst (aggregate listAggregator [(0, 5, ''A''), (7, 7, ''D''), (10, 15, ''B'')] []) =
     [PreCall (0, 5, ''A''), PreCall (7, 7, ''D''), PreCall (10, 15, ''B''),
      AggCall [''A''], PostCall \<lparr>block_start = 0, block_end = 5, block_value = [''A'']\<rparr>,
      AggCall [''B''], PostCall \<lparr>block_start = 10, block_end = 15, block_value = [''B'']\<rparr>]"
proof -
  let ?items = "[(0, 5, ''A''), (7, 7, ''D''), (10, 15, ''B'')] :: (real \<times> real \<times> string) list"
  have h1: "\<forall>item \<in> set ?items. block_start (rangeBlock item) \<le> block_end (rangeBlock item)"
    by (simp add: rangeBlock_def)
  have v: "block_start (rangeBlock (0, 5, ''A'')) \<le> block_end (rangeBlock (0, 5, ''A''))"
    "block_start (rangeBlock (7, 7, ''D'')) \<le> block_end (rangeBlock (7, 7, ''D''))"
    "block_start (rangeBlock (10, 15, ''B'')) \<le> block_end (rangeBlock (10, 15, ''B''))"
    by (simp_all add: rangeBlock_def)
  have out: "fst (aggregate listAggregator ?items []) =
     [PreCall (0, 5, ''A''), PreCall (7, 7, ''D''), PreCall (10, 15, ''B''),
      AggCall [''A''], PostCall \<lparr>block_start = 0, block_end = 5, block_value = [''A'']\<rparr>,
      AggCall [''B''], PostCall \<lparr>block_start = 10, block_end = 15, block_value = [''B'']\<rparr>]"
    by (simp add: listAggregator_def run_simps)
  from aggregate_no_spurious_spans[of rangeBlock "\<lambda>vs. vs" "\<lambda>b. b" ?items "[]"] obtain calls where
    c: "fst (aggregate listAggregator ?items []) = [] @ calls"
       "map (\<lambda>vs. vs) (aggregated calls) = map block_value (emitted calls)"
       "\<forall>vs \<in> set (aggregated calls). vs \<noteq> []"
       "(\<forall>item \<in> set ?items. block_start (rangeBlock item) \<le> block_end (rangeBlock item)) \<longrightarrow>
        (\<forall>e \<in> set (emitted calls). \<exists>item \<in> set ?items.
          block_start (rangeBlock item) \<le> block_start e \<and> block_end e \<le> block_end (rangeBlock item))"
    unfolding listAggregator_def by blast
  from c(4) h1 have c4: "\<forall>e \<in> set (emitted calls). \<exists>item \<in> set ?items.
          block_start (rangeBlock item) \<le> block_start e \<and> block_end e \<le> block_end (rangeBlock item)"
    by (rule mp)
  have "\<exists>calls. fst (aggregate listAggregator ?items []) = [] @ calls \<and>
       map (\<lambda>vs. vs) (aggregated calls) = map block_value (emitted calls) \<and>
       (\<forall>vs \<in> set (aggregated calls). vs \<noteq> []) \<and>
       (\<forall>e \<in> set (emitted calls). \<exists>item \<in> set ?items.
          block_start (rangeBlock item) \<le> block_start e \<and> block_end e \<le> block_end (rangeBlock item))"
    using c(1,2,3) c4 by (intro exI[of _ calls] conjI)
  with v out show ?thesis by (intro conjI)
qed

text \<open>
  C6.  The index is faithful and lossless.  If the pre-processor returns the blocks \<open>bs\<close>
  for the items, \<^verbatim>\<open>createRedBlackTree\<close> returns a tree whose keys are, in strictly
  ascending order, the start and end coordinates of the blocks; the arrival list of the
  node at a key holds, by ascending index, the pairs of index and value of the blocks
  that start there, its departure list the indices of the blocks that end there; and
  every index below the number of items occurs exactly once among all arrival lists and
  exactly once among all departure lists.
\<close>

theorem createRedBlackTree_faithful:
  assumes ok: "map (itemPreProcessor a) items = map Inr bs"
  shows "\<exists>t. createRedBlackTree a items hist = (hist @ map PreCall items, Inr t) \<and>
           sorted_wrt (<) (map fst t) \<and>
           set (map fst t) = set (map block_start bs) \<union> set (map block_end bs) \<and>
           (\<forall>(k, nv) \<in> set t.
              nv_start nv = [(i, block_value (bs ! i)). i \<leftarrow> [0..<length bs], block_start (bs ! i) = k] \<and>
              nv_end nv = [i \<leftarrow> [0..<length bs]. block_end (bs ! i) = k]) \<and>
           mset (concat (map (\<lambda>(k, nv). map fst (nv_start nv)) t)) = mset [0..<length bs] \<and>
           mset (concat (map (\<lambda>(k, nv). nv_end nv) t)) = mset [0..<length bs]"
proof -
  let ?ebs = "enumerate 0 bs"
  let ?t = "indexOf ?ebs"
  have t: "createRedBlackTree a items hist = (hist @ map PreCall items, Inr ?t)"
    using createRedBlackTree_indexOf[OF ok] .
  have k: "map fst ?t = sorted_list_of_set (coords ?ebs)"
    by (simp add: indexOf_def treeOf_def comp_def)
  have 1: "sorted_wrt (<) (map fst ?t)" unfolding k by simp
  have 2: "set (map fst ?t) = set (map block_start bs) \<union> set (map block_end bs)"
    unfolding k using finite_coords[of ?ebs] by (simp add: coords_enumerate)
  have 3: "\<forall>(k, nv) \<in> set ?t.
              nv_start nv = [(i, block_value (bs ! i)). i \<leftarrow> [0..<length bs], block_start (bs ! i) = k] \<and>
              nv_end nv = [i \<leftarrow> [0..<length bs]. block_end (bs ! i) = k]"
    using nodeOf_enumerate[of bs] by (auto simp: indexOf_def treeOf_def)
  have 4: "mset (concat (map (\<lambda>(k, nv). map fst (nv_start nv)) ?t)) = mset [0..<length bs]"
    using indexOf_arrival_ids[of ?ebs] by simp
  have 5: "mset (concat (map (\<lambda>(k, nv). nv_end nv) ?t)) = mset [0..<length bs]"
    using indexOf_departure_ids[of ?ebs] by simp
  from t 1 2 3 4 5 show ?thesis by (intro exI[of _ ?t] conjI)
qed

text \<open>The theorem at a concrete input.\<close>

theorem createRedBlackTree_faithful_witness:
  "map (itemPreProcessor listAggregator) [(0, 10, ''A''), (5, 15, ''B''), (0, 15, ''C'')]
     = map Inr (map rangeBlock [(0, 10, ''A''), (5, 15, ''B''), (0, 15, ''C'')]) \<and>
   (\<exists>t. createRedBlackTree listAggregator [(0, 10, ''A''), (5, 15, ''B''), (0, 15, ''C'')] []
           = ([] @ map PreCall [(0, 10, ''A''), (5, 15, ''B''), (0, 15, ''C'')], Inr t) \<and>
        sorted_wrt (<) (map fst t) \<and>
        set (map fst t) = set (map block_start (map rangeBlock [(0, 10, ''A''), (5, 15, ''B''), (0, 15, ''C'')]))
                        \<union> set (map block_end (map rangeBlock [(0, 10, ''A''), (5, 15, ''B''), (0, 15, ''C'')])) \<and>
        (\<forall>(k, nv) \<in> set t.
           nv_start nv = [(i, block_value (map rangeBlock [(0, 10, ''A''), (5, 15, ''B''), (0, 15, ''C'')] ! i)).
                            i \<leftarrow> [0..<length (map rangeBlock [(0, 10, ''A''), (5, 15, ''B''), (0, 15, ''C'')])],
                            block_start (map rangeBlock [(0, 10, ''A''), (5, 15, ''B''), (0, 15, ''C'')] ! i) = k] \<and>
           nv_end nv = [i \<leftarrow> [0..<length (map rangeBlock [(0, 10, ''A''), (5, 15, ''B''), (0, 15, ''C'')])].
                          block_end (map rangeBlock [(0, 10, ''A''), (5, 15, ''B''), (0, 15, ''C'')] ! i) = k]) \<and>
        mset (concat (map (\<lambda>(k, nv). map fst (nv_start nv)) t))
          = mset [0..<length (map rangeBlock [(0, 10, ''A''), (5, 15, ''B''), (0, 15, ''C'')])] \<and>
        mset (concat (map (\<lambda>(k, nv). nv_end nv) t))
          = mset [0..<length (map rangeBlock [(0, 10, ''A''), (5, 15, ''B''), (0, 15, ''C'')])]) \<and>
   snd (createRedBlackTree listAggregator [(0, 10, ''A''), (5, 15, ''B''), (0, 15, ''C'')] []) =
     Inr [(0, \<lparr>nv_start = [(0, ''A''), (2, ''C'')], nv_end = []\<rparr>),
          (5, \<lparr>nv_start = [(1, ''B'')], nv_end = []\<rparr>),
          (10, \<lparr>nv_start = [], nv_end = [0]\<rparr>),
          (15, \<lparr>nv_start = [], nv_end = [1, 2]\<rparr>)]"
proof -
  let ?items = "[(0, 10, ''A''), (5, 15, ''B''), (0, 15, ''C'')] :: (real \<times> real \<times> string) list"
  have h1: "map (itemPreProcessor listAggregator) ?items = map Inr (map rangeBlock ?items)"
    by (simp add: listAggregator_def pureAggregator_def)
  have out: "snd (createRedBlackTree listAggregator ?items []) =
     Inr [(0, \<lparr>nv_start = [(0, ''A''), (2, ''C'')], nv_end = []\<rparr>),
          (5, \<lparr>nv_start = [(1, ''B'')], nv_end = []\<rparr>),
          (10, \<lparr>nv_start = [], nv_end = [0]\<rparr>),
          (15, \<lparr>nv_start = [], nv_end = [1, 2]\<rparr>)]"
    by (simp add: listAggregator_def run_simps)
  from createRedBlackTree_faithful[OF h1, of "[]"] h1 out
  show ?thesis by (intro conjI)
qed

text \<open>
  C7.  The claim fails: with A = [0, 10) and the degenerate block D = [5, 5) the output
  has the two blocks [0, 5) and [5, 10), without D it has the one block [0, 10).  The
  coordinate of D is a key of the tree, and the scan cuts the span of A there.
\<close>

theorem degenerate_block_inert_counterexample:
  "snd (aggregate listAggregator [(0, 10, ''A''), (5, 5, ''D'')] []) =
     Inr [\<lparr>block_start = 0, block_end = 5, block_value = [''A'']\<rparr>,
          \<lparr>block_start = 5, block_end = 10, block_value = [''A'']\<rparr>] \<and>
   snd (aggregate listAggregator [(0, 10, ''A'')] []) =
     Inr [\<lparr>block_start = 0, block_end = 10, block_value = [''A'']\<rparr>] \<and>
   snd (aggregate listAggregator [(0, 10, ''A''), (5, 5, ''D'')] []) \<noteq>
   snd (aggregate listAggregator [(0, 10, ''A'')] [])"
  by (simp add: listAggregator_def run_simps)

text \<open>
  C7, amended.  Let the callbacks never throw and \<open>d\<close> be normalised to a block whose
  start is its end; the other blocks are any.  Then \<^verbatim>\<open>aggregate\<close> returns an output
  with \<open>d\<close> as without it.  If every other block has start at or before end, the two
  outputs agree at every point \<open>p\<close>: an emitted block with value \<open>v\<close> contains \<open>p\<close>
  in the one exactly if one does in the other, so \<open>d\<close> never adds its value to, or
  takes a value from, what is aggregated at a point.  If the coordinate of \<open>d\<close> is also
  the start or end of another block, the emitted blocks, and so the two outputs, are the
  same.
\<close>

theorem aggregate_degenerate_block:
  assumes deg: "block_start (pre d) = block_end (pre d)"
  shows "\<exists>calls calls'.
           aggregate (pureAggregator pre agg post :: ('i, 'v, 'w, 'r, 'e) Aggregator) (xs @ d # ys) hist
             = (hist @ calls, Inr (map post (emitted calls))) \<and>
           aggregate (pureAggregator pre agg post :: ('i, 'v, 'w, 'r, 'e) Aggregator) (xs @ ys) hist
             = (hist @ calls', Inr (map post (emitted calls'))) \<and>
           ((\<forall>item \<in> set (xs @ ys). block_start (pre item) \<le> block_end (pre item)) \<longrightarrow>
            (\<forall>p v. (\<exists>e \<in> set (emitted calls). block_start e \<le> p \<and> p < block_end e \<and> block_value e = v)
                 = (\<exists>e \<in> set (emitted calls'). block_start e \<le> p \<and> p < block_end e \<and> block_value e = v))) \<and>
           (block_start (pre d) \<in> set (map (\<lambda>item. block_start (pre item)) (xs @ ys))
                                   \<union> set (map (\<lambda>item. block_end (pre item)) (xs @ ys))
              \<longrightarrow> emitted calls = emitted calls')"
proof -
  let ?a = "pureAggregator pre agg post :: ('i, 'v, 'w, 'r, 'e) Aggregator"
  let ?bs = "map pre (xs @ d # ys)" and ?bs' = "map pre (xs @ ys)"
  from aggregate_pure[of ?a pre agg post "xs @ d # ys" hist, OF refl] obtain calls where
    c: "aggregate ?a (xs @ d # ys) hist = (hist @ calls, Inr (map post (emitted calls)))"
       "emitted calls = blockSpans agg ?bs" by blast
  from aggregate_pure[of ?a pre agg post "xs @ ys" hist, OF refl] obtain calls' where
    c': "aggregate ?a (xs @ ys) hist = (hist @ calls', Inr (map post (emitted calls')))"
       "emitted calls' = blockSpans agg ?bs'" by blast
  have same: "filter (\<lambda>b. block_start b \<le> p \<and> p < block_end b) ?bs
            = filter (\<lambda>b. block_start b \<le> p \<and> p < block_end b) ?bs'" for p
    using deg by simp
  have 1: "(\<exists>e \<in> set (emitted calls). block_start e \<le> p \<and> p < block_end e \<and> block_value e = v)
         = (\<exists>e \<in> set (emitted calls'). block_start e \<le> p \<and> p < block_end e \<and> block_value e = v)"
    if others: "\<forall>item \<in> set (xs @ ys). block_start (pre item) \<le> block_end (pre item)" for p v
  proof -
    have v': "\<forall>b \<in> set ?bs'. block_start b \<le> block_end b" using others by auto
    have v: "\<forall>b \<in> set ?bs. block_start b \<le> block_end b" using v' deg by auto
    show ?thesis
      unfolding c(2) c'(2)
      using blockSpans_at_point[OF v v' same, of _ agg p] blockSpans_at_point[OF v' v same[symmetric], of _ agg p]
      by metis
  qed
  have 2: "emitted calls = emitted calls'"
    if "block_start (pre d) \<in> set (map (\<lambda>item. block_start (pre item)) (xs @ ys))
                                   \<union> set (map (\<lambda>item. block_end (pre item)) (xs @ ys))"
    unfolding c(2) c'(2)
    using blockSpans_degenerate_key[of "pre d" "map pre xs" "map pre ys" agg] deg that
    by (simp add: comp_def)
  from c(1) c'(1) 1 2 show ?thesis by (intro exI[of _ calls] exI[of _ calls'] conjI allI impI)
qed

text \<open>The theorem at a concrete input.\<close>

theorem aggregate_degenerate_block_witness:
  "block_start (rangeBlock (5, 5, ''D'')) = block_end (rangeBlock (5, 5, ''D'')) \<and>
   block_start (rangeBlock (0, 10, ''A'')) \<le> block_end (rangeBlock (0, 10, ''A'')) \<and>
   block_start (rangeBlock (5, 15, ''B'')) \<le> block_end (rangeBlock (5, 15, ''B'')) \<and>
   block_start (rangeBlock (12, 12, ''E'')) \<le> block_end (rangeBlock (12, 12, ''E'')) \<and>
   block_start (rangeBlock (5, 5, ''D'')) \<in>
     set (map (\<lambda>item. block_start (rangeBlock item)) ([(0, 10, ''A'')] @ [(5, 15, ''B''), (12, 12, ''E'')]))
       \<union> set (map (\<lambda>item. block_end (rangeBlock item)) ([(0, 10, ''A'')] @ [(5, 15, ''B''), (12, 12, ''E'')])) \<and>
   snd (aggregate listAggregator ([(0, 10, ''A'')] @ (5, 5, ''D'') # [(5, 15, ''B''), (12, 12, ''E'')]) []) =
   snd (aggregate listAggregator ([(0, 10, ''A'')] @ [(5, 15, ''B''), (12, 12, ''E'')]) []) \<and>
   (\<exists>e \<in> set (emitted (fst (aggregate listAggregator
              ([(0, 10, ''A'')] @ (5, 5, ''D'') # [(5, 15, ''B''), (12, 12, ''E'')]) []))).
      block_start e \<le> 7 \<and> 7 < block_end e \<and> block_value e = [''A'', ''B'']) =
   (\<exists>e \<in> set (emitted (fst (aggregate listAggregator
              ([(0, 10, ''A'')] @ [(5, 15, ''B''), (12, 12, ''E'')]) []))).
      block_start e \<le> 7 \<and> 7 < block_end e \<and> block_value e = [''A'', ''B''])"
proof -
  let ?xs = "[(0, 10, ''A'')] :: (real \<times> real \<times> string) list"
  let ?ys = "[(5, 15, ''B''), (12, 12, ''E'')] :: (real \<times> real \<times> string) list"
  let ?d = "(5, 5, ''D'') :: real \<times> real \<times> string"
  have h1: "\<forall>item \<in> set (?xs @ ?ys). block_start (rangeBlock item) \<le> block_end (rangeBlock item)"
    by (simp add: rangeBlock_def)
  have h2: "block_start (rangeBlock ?d) = block_end (rangeBlock ?d)"
    by (simp add: rangeBlock_def)
  have h3: "block_start (rangeBlock ?d) \<in>
     set (map (\<lambda>item. block_start (rangeBlock item)) (?xs @ ?ys))
       \<union> set (map (\<lambda>item. block_end (rangeBlock item)) (?xs @ ?ys))"
    by (simp add: rangeBlock_def)
  have v: "block_start (rangeBlock (0, 10, ''A'')) \<le> block_end (rangeBlock (0, 10, ''A''))"
    "block_start (rangeBlock (5, 15, ''B'')) \<le> block_end (rangeBlock (5, 15, ''B''))"
    "block_start (rangeBlock (12, 12, ''E'')) \<le> block_end (rangeBlock (12, 12, ''E''))"
    by (simp_all add: rangeBlock_def)
  from aggregate_degenerate_block[of rangeBlock ?d "\<lambda>vs. vs" "\<lambda>b. b" ?xs ?ys "[]", OF h2] h1 h3
  obtain calls calls' where
    c: "aggregate listAggregator (?xs @ ?d # ?ys) [] = ([] @ calls, Inr (map (\<lambda>b. b) (emitted calls)))"
       "aggregate listAggregator (?xs @ ?ys) [] = ([] @ calls', Inr (map (\<lambda>b. b) (emitted calls')))"
       "\<forall>p v. (\<exists>e \<in> set (emitted calls). block_start e \<le> p \<and> p < block_end e \<and> block_value e = v)
            = (\<exists>e \<in> set (emitted calls'). block_start e \<le> p \<and> p < block_end e \<and> block_value e = v)"
       "emitted calls = emitted calls'"
    unfolding listAggregator_def by blast
  have r: "snd (aggregate listAggregator (?xs @ ?d # ?ys) []) = snd (aggregate listAggregator (?xs @ ?ys) [])"
    unfolding c(1) c(2) using c(4) by simp
  have f: "fst (aggregate listAggregator (?xs @ ?d # ?ys) []) = calls"
    "fst (aggregate listAggregator (?xs @ ?ys) []) = calls'"
    unfolding c(1) c(2) by simp_all
  have q: "(\<exists>e \<in> set (emitted (fst (aggregate listAggregator (?xs @ ?d # ?ys) []))).
      block_start e \<le> 7 \<and> 7 < block_end e \<and> block_value e = [''A'', ''B'']) =
   (\<exists>e \<in> set (emitted (fst (aggregate listAggregator (?xs @ ?ys) []))).
      block_start e \<le> 7 \<and> 7 < block_end e \<and> block_value e = [''A'', ''B''])"
    unfolding f using c(3) by blast
  from h2 v h3 r q show ?thesis by (intro conjI)
qed

text \<open>
  C8.  All or nothing.  Let the pre-processor have returned a block for every item, so
  that \<^verbatim>\<open>createRedBlackTree\<close> returns a tree \<open>t\<close>; the other case is C10.  A span of
  the scan of \<open>t\<close> raises if the aggregation function raises on its values or the
  post-processor on the block of their aggregate.  Either no span raises, and the call
  returns the full output: the result of the post-processor for every span, in order.
  Or some span raises, and the call returns the exception of the first that does and no
  output, whatever the post-processor has returned for the spans before it.  In both
  cases the callbacks are called for the spans up to that one, in order, and for none
  after it.
\<close>

theorem aggregate_all_or_nothing:
  assumes t: "createRedBlackTree a items hist = (hist', Inr t)"
  shows "(\<exists>out. map (spanResult a) (scanSpans t) = map Inr out \<and>
               aggregate a items hist = (hist' @ concat (map (spanCalls a) (scanSpans t)), Inr out)) \<or>
         (\<exists>sp1 s sp2 rs e. scanSpans t = sp1 @ s # sp2 \<and>
               map (spanResult a) sp1 = map Inr rs \<and> spanResult a s = Inl e \<and>
               aggregate a items hist = (hist' @ concat (map (spanCalls a) (sp1 @ [s])), Inl e))"
proof -
  have r: "aggregate a items hist = emit a (scanSpans t) [] hist'"
    by (simp add: aggregate_def t aggregate_loop_emit scanSpans_spans)
  show ?thesis
  proof (cases "\<exists>s \<in> set (scanSpans t). \<exists>e. spanResult a s = Inl e")
    case True
    then obtain s e where "s \<in> set (scanSpans t)" "spanResult a s = Inl e" by blast
    from first_failure[of s "scanSpans t" "spanResult a" e, OF this] obtain sp1 y sp2 e' rs where
      f: "scanSpans t = sp1 @ y # sp2" "spanResult a y = Inl e'" "map (spanResult a) sp1 = map Inr rs"
      by blast
    have "aggregate a items hist = (hist' @ concat (map (spanCalls a) (sp1 @ [y])), Inl e')"
      unfolding r f(1) using emit_first_fail[OF f(3) f(2)] .
    with f have "\<exists>sp1 s sp2 rs e. scanSpans t = sp1 @ s # sp2 \<and>
               map (spanResult a) sp1 = map Inr rs \<and> spanResult a s = Inl e \<and>
               aggregate a items hist = (hist' @ concat (map (spanCalls a) (sp1 @ [s])), Inl e)"
      by (intro exI[of _ sp1] exI[of _ y] exI[of _ sp2] exI[of _ rs] exI[of _ e']) simp
    then show ?thesis by (rule disjI2)
  next
    case False
    then have "\<forall>s \<in> set (scanSpans t). \<forall>e. spanResult a s \<noteq> Inl e" by blast
    from all_ok_blocks[OF this] obtain out where
      o: "map (spanResult a) (scanSpans t) = map Inr out" by blast
    have "aggregate a items hist = (hist' @ concat (map (spanCalls a) (scanSpans t)), Inr out)"
      unfolding r using emit_all_ok[OF o, of "[]" hist'] by simp
    with o have "\<exists>out. map (spanResult a) (scanSpans t) = map Inr out \<and>
               aggregate a items hist = (hist' @ concat (map (spanCalls a) (scanSpans t)), Inr out)"
      by (intro exI[of _ out]) simp
    then show ?thesis by (rule disjI1)
  qed
qed

text \<open>The theorem at a concrete input.\<close>

theorem aggregate_all_or_nothing_witness:
  "createRedBlackTree checkedAggregator [(0, 10, ''A''), (5, 15, ''B'')] [] = ([PreCall (0, 10, ''A''), PreCall (5, 15, ''B'')], Inr [(0, \<lparr>nv_start = [(0, ''A'')], nv_end = []\<rparr>), (5, \<lparr>nv_start = [(1, ''B'')], nv_end = []\<rparr>),
        (10, \<lparr>nv_start = [], nv_end = [0]\<rparr>), (15, \<lparr>nv_start = [], nv_end = [1]\<rparr>)]) \<and>
   ((\<exists>out. map (spanResult checkedAggregator) (scanSpans [(0, \<lparr>nv_start = [(0, ''A'')], nv_end = []\<rparr>), (5, \<lparr>nv_start = [(1, ''B'')], nv_end = []\<rparr>),
        (10, \<lparr>nv_start = [], nv_end = [0]\<rparr>), (15, \<lparr>nv_start = [], nv_end = [1]\<rparr>)]) = map Inr out \<and>
        aggregate checkedAggregator [(0, 10, ''A''), (5, 15, ''B'')] [] = ([PreCall (0, 10, ''A''), PreCall (5, 15, ''B'')] @ concat (map (spanCalls checkedAggregator) (scanSpans [(0, \<lparr>nv_start = [(0, ''A'')], nv_end = []\<rparr>), (5, \<lparr>nv_start = [(1, ''B'')], nv_end = []\<rparr>),
        (10, \<lparr>nv_start = [], nv_end = [0]\<rparr>), (15, \<lparr>nv_start = [], nv_end = [1]\<rparr>)])), Inr out)) \<or>
    (\<exists>sp1 s sp2 rs e. scanSpans [(0, \<lparr>nv_start = [(0, ''A'')], nv_end = []\<rparr>), (5, \<lparr>nv_start = [(1, ''B'')], nv_end = []\<rparr>),
        (10, \<lparr>nv_start = [], nv_end = [0]\<rparr>), (15, \<lparr>nv_start = [], nv_end = [1]\<rparr>)] = sp1 @ s # sp2 \<and>
        map (spanResult checkedAggregator) sp1 = map Inr rs \<and> spanResult checkedAggregator s = Inl e \<and>
        aggregate checkedAggregator [(0, 10, ''A''), (5, 15, ''B'')] [] = ([PreCall (0, 10, ''A''), PreCall (5, 15, ''B'')] @ concat (map (spanCalls checkedAggregator) (sp1 @ [s])), Inl e))) \<and>
   aggregate checkedAggregator [(0, 10, ''A''), (5, 15, ''B'')] [] = ([PreCall (0, 10, ''A''), PreCall (5, 15, ''B'')] @ [AggCall [''A''], PostCall \<lparr>block_start = 0, block_end = 5, block_value = [''A'']\<rparr>, AggCall [''A'', ''B'']], Inl ''overlap'') \<and>
   createRedBlackTree lateAggregator [(0, 10, ''A''), (5, 15, ''B'')] [] = ([PreCall (0, 10, ''A''), PreCall (5, 15, ''B'')], Inr [(0, \<lparr>nv_start = [(0, ''A'')], nv_end = []\<rparr>), (5, \<lparr>nv_start = [(1, ''B'')], nv_end = []\<rparr>),
        (10, \<lparr>nv_start = [], nv_end = [0]\<rparr>), (15, \<lparr>nv_start = [], nv_end = [1]\<rparr>)]) \<and>
   ((\<exists>out. map (spanResult lateAggregator) (scanSpans [(0, \<lparr>nv_start = [(0, ''A'')], nv_end = []\<rparr>), (5, \<lparr>nv_start = [(1, ''B'')], nv_end = []\<rparr>),
        (10, \<lparr>nv_start = [], nv_end = [0]\<rparr>), (15, \<lparr>nv_start = [], nv_end = [1]\<rparr>)]) = map Inr out \<and>
        aggregate lateAggregator [(0, 10, ''A''), (5, 15, ''B'')] [] = ([PreCall (0, 10, ''A''), PreCall (5, 15, ''B'')] @ concat (map (spanCalls lateAggregator) (scanSpans [(0, \<lparr>nv_start = [(0, ''A'')], nv_end = []\<rparr>), (5, \<lparr>nv_start = [(1, ''B'')], nv_end = []\<rparr>),
        (10, \<lparr>nv_start = [], nv_end = [0]\<rparr>), (15, \<lparr>nv_start = [], nv_end = [1]\<rparr>)])), Inr out)) \<or>
    (\<exists>sp1 s sp2 rs e. scanSpans [(0, \<lparr>nv_start = [(0, ''A'')], nv_end = []\<rparr>), (5, \<lparr>nv_start = [(1, ''B'')], nv_end = []\<rparr>),
        (10, \<lparr>nv_start = [], nv_end = [0]\<rparr>), (15, \<lparr>nv_start = [], nv_end = [1]\<rparr>)] = sp1 @ s # sp2 \<and>
        map (spanResult lateAggregator) sp1 = map Inr rs \<and> spanResult lateAggregator s = Inl e \<and>
        aggregate lateAggregator [(0, 10, ''A''), (5, 15, ''B'')] [] = ([PreCall (0, 10, ''A''), PreCall (5, 15, ''B'')] @ concat (map (spanCalls lateAggregator) (sp1 @ [s])), Inl e))) \<and>
   aggregate lateAggregator [(0, 10, ''A''), (5, 15, ''B'')] [] = ([PreCall (0, 10, ''A''), PreCall (5, 15, ''B'')] @ [AggCall [''A''], PostCall \<lparr>block_start = 0, block_end = 5, block_value = [''A'']\<rparr>, AggCall [''A'', ''B''], PostCall \<lparr>block_start = 5, block_end = 10, block_value = [''A'', ''B'']\<rparr>, AggCall [''B''], PostCall \<lparr>block_start = 10, block_end = 15, block_value = [''B'']\<rparr>], Inl ''late'')"
proof -
  let ?items = "[(0, 10, ''A''), (5, 15, ''B'')] :: (real \<times> real \<times> string) list"
  let ?h = "[PreCall (0, 10, ''A''), PreCall (5, 15, ''B'')] :: (real \<times> real \<times> string, string, string list) Call list"
  let ?t = "[(0, \<lparr>nv_start = [(0, ''A'')], nv_end = []\<rparr>), (5, \<lparr>nv_start = [(1, ''B'')], nv_end = []\<rparr>),
        (10, \<lparr>nv_start = [], nv_end = [0]\<rparr>), (15, \<lparr>nv_start = [], nv_end = [1]\<rparr>)] :: string NodeValue Tree"
  have h1: "createRedBlackTree checkedAggregator ?items [] = (?h, Inr ?t)"
    by (simp add: checkedAggregator_def createRedBlackTree_def createRBTree_def pushValueToNode_def
        emptyNodeValue_def Let_def)
  have h2: "createRedBlackTree lateAggregator ?items [] = (?h, Inr ?t)"
    by (simp add: lateAggregator_def rangeBlock_def createRedBlackTree_def createRBTree_def
        pushValueToNode_def emptyNodeValue_def Let_def)
  have r1: "aggregate checkedAggregator ?items [] = ([PreCall (0, 10, ''A''), PreCall (5, 15, ''B'')] @ [AggCall [''A''], PostCall \<lparr>block_start = 0, block_end = 5, block_value = [''A'']\<rparr>, AggCall [''A'', ''B'']], Inl ''overlap'')"
    by (simp add: checkedAggregator_def aggregate_def createRedBlackTree_def createRBTree_def
        pushValueToNode_def emptyNodeValue_def applyNode_def map_size_def map_values_def Let_def)
  have r2: "aggregate lateAggregator ?items [] = ([PreCall (0, 10, ''A''), PreCall (5, 15, ''B'')] @ [AggCall [''A''], PostCall \<lparr>block_start = 0, block_end = 5, block_value = [''A'']\<rparr>, AggCall [''A'', ''B''], PostCall \<lparr>block_start = 5, block_end = 10, block_value = [''A'', ''B'']\<rparr>, AggCall [''B''], PostCall \<lparr>block_start = 10, block_end = 15, block_value = [''B'']\<rparr>], Inl ''late'')"
    by (simp add: lateAggregator_def rangeBlock_def aggregate_def createRedBlackTree_def createRBTree_def
        pushValueToNode_def emptyNodeValue_def applyNode_def map_size_def map_values_def Let_def)
  from h1 aggregate_all_or_nothing[OF h1] r1 h2 aggregate_all_or_nothing[OF h2] r2
  show ?thesis by (intro conjI)
qed

text \<open>
  C9.  Determinism across calls, over the store, where the objects of a call stay after
  it.  Let a call of \<^verbatim>\<open>aggregate\<close> on the store \<open>s\<close> end in the store \<open>s'\<close>.  It
  returns what the function on values returns: the same exception, or a reference to an
  array of the same content.  Every object of \<open>s\<close> is in \<open>s'\<close> as it was: the call
  changes only objects that it has created, and the array it returns is one of them.  So
  a call from any other store, such as the one a previous call has left, returns the same
  exception or the same content; and no later call, of this or another instance, changes
  the array that this one has returned.
\<close>

theorem aggregate_store_deterministic:
  fixes a :: "('i, 'v, 'w, 'r, 'e) Aggregator"
  assumes r: "aggregate_store a items s = (s', res)"
  shows "returned s' res = snd (aggregate a items hist) \<and>
         take (length (nodes s)) (nodes s') = nodes s \<and>
         take (length (maps s)) (maps s') = maps s \<and>
         take (length (arrays s)) (arrays s') = arrays s \<and>
         (\<forall>p. res = Inr p \<longrightarrow> p = length (arrays s) \<and> p < length (arrays s')) \<and>
         (\<forall>s2 s2' res2. aggregate_store a items s2 = (s2', res2) \<longrightarrow>
            returned s2' res2 = returned s' res) \<and>
         (\<forall>(a2 :: ('i, 'v, 'w, 'r, 'e) Aggregator) items2 s'' res''.
            aggregate_store a2 items2 s' = (s'', res'') \<longrightarrow>
            returned s'' res = returned s' res)"
proof -
  note f = aggregate_store_refines(1)[OF r, of hist] aggregate_store_refines(2-5)[OF r]
  from f(3) obtain mv where mv: "maps s' = maps s @ [mv]" by blast
  from f(4) obtain ov where ov: "arrays s' = arrays s @ [ov]" by blast
  have 3: "take (length (maps s)) (maps s') = maps s" by (simp add: mv)
  have 4: "take (length (arrays s)) (arrays s') = arrays s" by (simp add: ov)
  have 5: "\<forall>p. res = Inr p \<longrightarrow> p = length (arrays s) \<and> p < length (arrays s')"
    using f(5) by (simp add: ov)
  have 6: "\<forall>s2 s2' res2. aggregate_store a items s2 = (s2', res2) \<longrightarrow>
            returned s2' res2 = returned s' res"
    using aggregate_store_refines(1)[of a items _ _ _ hist] f(1) by simp
  have 7: "\<forall>(a2 :: ('i, 'v, 'w, 'r, 'e) Aggregator) items2 s'' res''.
            aggregate_store a2 items2 s' = (s'', res'') \<longrightarrow>
            returned s'' res = returned s' res"
  proof (intro allI impI)
    fix a2 :: "('i, 'v, 'w, 'r, 'e) Aggregator" and items2 s'' res''
    assume r2: "aggregate_store a2 items2 s' = (s'', res'')"
    from aggregate_store_refines(4)[OF r2] obtain ov' where "arrays s'' = arrays s' @ [ov']" by blast
    then show "returned s'' res = returned s' res"
      using 5 by (cases res) (auto simp: returned_def nth_append)
  qed
  from f(1,2) 3 4 5 6 7 show ?thesis by (intro conjI)
qed

text \<open>The theorem at a concrete input.\<close>

theorem aggregate_store_deterministic_witness:
  "aggregate_store listAggregator [(0, 10, ''A''), (5, 15, ''B'')] \<lparr>nodes = [], maps = [], arrays = []\<rparr> =
     (\<lparr>nodes = [\<lparr>nv_start = [(0, ''A'')], nv_end = []\<rparr>, \<lparr>nv_start = [], nv_end = [0]\<rparr>,
                 \<lparr>nv_start = [(1, ''B'')], nv_end = []\<rparr>, \<lparr>nv_start = [], nv_end = [1]\<rparr>],
        maps = [[(1, ''B'')]],
        arrays = [[\<lparr>block_start = 0, block_end = 5, block_value = [''A'']\<rparr>,
          \<lparr>block_start = 5, block_end = 10, block_value = [''A'', ''B'']\<rparr>,
          \<lparr>block_start = 10, block_end = 15, block_value = [''B'']\<rparr>]]\<rparr>, Inr 0) \<and>
   returned \<lparr>nodes = [\<lparr>nv_start = [(0, ''A'')], nv_end = []\<rparr>, \<lparr>nv_start = [], nv_end = [0]\<rparr>,
                 \<lparr>nv_start = [(1, ''B'')], nv_end = []\<rparr>, \<lparr>nv_start = [], nv_end = [1]\<rparr>],
        maps = [[(1, ''B'')]],
        arrays = [[\<lparr>block_start = 0, block_end = 5, block_value = [''A'']\<rparr>,
          \<lparr>block_start = 5, block_end = 10, block_value = [''A'', ''B'']\<rparr>,
          \<lparr>block_start = 10, block_end = 15, block_value = [''B'']\<rparr>]]\<rparr> (Inr 0 :: unit + nat) =
     Inr [\<lparr>block_start = 0, block_end = 5, block_value = [''A'']\<rparr>,
          \<lparr>block_start = 5, block_end = 10, block_value = [''A'', ''B'']\<rparr>,
          \<lparr>block_start = 10, block_end = 15, block_value = [''B'']\<rparr>] \<and>
   returned (fst (aggregate_store listAggregator [(0, 10, ''A''), (5, 15, ''B'')] \<lparr>nodes = [\<lparr>nv_start = [(0, ''A'')], nv_end = []\<rparr>, \<lparr>nv_start = [], nv_end = [0]\<rparr>,
                 \<lparr>nv_start = [(1, ''B'')], nv_end = []\<rparr>, \<lparr>nv_start = [], nv_end = [1]\<rparr>],
        maps = [[(1, ''B'')]],
        arrays = [[\<lparr>block_start = 0, block_end = 5, block_value = [''A'']\<rparr>,
          \<lparr>block_start = 5, block_end = 10, block_value = [''A'', ''B'']\<rparr>,
          \<lparr>block_start = 10, block_end = 15, block_value = [''B'']\<rparr>]]\<rparr>))
            (snd (aggregate_store listAggregator [(0, 10, ''A''), (5, 15, ''B'')] \<lparr>nodes = [\<lparr>nv_start = [(0, ''A'')], nv_end = []\<rparr>, \<lparr>nv_start = [], nv_end = [0]\<rparr>,
                 \<lparr>nv_start = [(1, ''B'')], nv_end = []\<rparr>, \<lparr>nv_start = [], nv_end = [1]\<rparr>],
        maps = [[(1, ''B'')]],
        arrays = [[\<lparr>block_start = 0, block_end = 5, block_value = [''A'']\<rparr>,
          \<lparr>block_start = 5, block_end = 10, block_value = [''A'', ''B'']\<rparr>,
          \<lparr>block_start = 10, block_end = 15, block_value = [''B'']\<rparr>]]\<rparr>)) =
     returned \<lparr>nodes = [\<lparr>nv_start = [(0, ''A'')], nv_end = []\<rparr>, \<lparr>nv_start = [], nv_end = [0]\<rparr>,
                 \<lparr>nv_start = [(1, ''B'')], nv_end = []\<rparr>, \<lparr>nv_start = [], nv_end = [1]\<rparr>],
        maps = [[(1, ''B'')]],
        arrays = [[\<lparr>block_start = 0, block_end = 5, block_value = [''A'']\<rparr>,
          \<lparr>block_start = 5, block_end = 10, block_value = [''A'', ''B'']\<rparr>,
          \<lparr>block_start = 10, block_end = 15, block_value = [''B'']\<rparr>]]\<rparr> (Inr 0) \<and>
   returned (fst (aggregate_store listAggregator [(0, 10, ''A''), (5, 15, ''B'')] \<lparr>nodes = [\<lparr>nv_start = [(0, ''A'')], nv_end = []\<rparr>, \<lparr>nv_start = [], nv_end = [0]\<rparr>,
                 \<lparr>nv_start = [(1, ''B'')], nv_end = []\<rparr>, \<lparr>nv_start = [], nv_end = [1]\<rparr>],
        maps = [[(1, ''B'')]],
        arrays = [[\<lparr>block_start = 0, block_end = 5, block_value = [''A'']\<rparr>,
          \<lparr>block_start = 5, block_end = 10, block_value = [''A'', ''B'']\<rparr>,
          \<lparr>block_start = 10, block_end = 15, block_value = [''B'']\<rparr>]]\<rparr>)) (Inr 0 :: unit + nat) =
     returned \<lparr>nodes = [\<lparr>nv_start = [(0, ''A'')], nv_end = []\<rparr>, \<lparr>nv_start = [], nv_end = [0]\<rparr>,
                 \<lparr>nv_start = [(1, ''B'')], nv_end = []\<rparr>, \<lparr>nv_start = [], nv_end = [1]\<rparr>],
        maps = [[(1, ''B'')]],
        arrays = [[\<lparr>block_start = 0, block_end = 5, block_value = [''A'']\<rparr>,
          \<lparr>block_start = 5, block_end = 10, block_value = [''A'', ''B'']\<rparr>,
          \<lparr>block_start = 10, block_end = 15, block_value = [''B'']\<rparr>]]\<rparr> (Inr 0) \<and>
   snd (aggregate_store listAggregator [(0, 10, ''A''), (5, 15, ''B'')] \<lparr>nodes = [\<lparr>nv_start = [(0, ''A'')], nv_end = []\<rparr>, \<lparr>nv_start = [], nv_end = [0]\<rparr>,
                 \<lparr>nv_start = [(1, ''B'')], nv_end = []\<rparr>, \<lparr>nv_start = [], nv_end = [1]\<rparr>],
        maps = [[(1, ''B'')]],
        arrays = [[\<lparr>block_start = 0, block_end = 5, block_value = [''A'']\<rparr>,
          \<lparr>block_start = 5, block_end = 10, block_value = [''A'', ''B'']\<rparr>,
          \<lparr>block_start = 10, block_end = 15, block_value = [''B'']\<rparr>]]\<rparr>) = Inr 1"
proof -
  let ?items = "[(0, 10, ''A''), (5, 15, ''B'')] :: (real \<times> real \<times> string) list"
  let ?s0 = "\<lparr>nodes = [], maps = [], arrays = []\<rparr> :: (string, string list Block) Store"
  let ?s1 = "\<lparr>nodes = [\<lparr>nv_start = [(0, ''A'')], nv_end = []\<rparr>, \<lparr>nv_start = [], nv_end = [0]\<rparr>,
                 \<lparr>nv_start = [(1, ''B'')], nv_end = []\<rparr>, \<lparr>nv_start = [], nv_end = [1]\<rparr>],
        maps = [[(1, ''B'')]],
        arrays = [[\<lparr>block_start = 0, block_end = 5, block_value = [''A'']\<rparr>,
          \<lparr>block_start = 5, block_end = 10, block_value = [''A'', ''B'']\<rparr>,
          \<lparr>block_start = 10, block_end = 15, block_value = [''B'']\<rparr>]]\<rparr> :: (string, string list Block) Store"
  have r1: "aggregate_store listAggregator ?items ?s0 = (?s1, Inr 0)"
    by (simp add: aggregate_store_def createRedBlackTree_store_def createRBTree_def
        pushValueToNode_store_def emptyNodeValue_store_def applyNode_def map_size_def map_values_def
        Let_def listAggregator_def pureAggregator_def rangeBlock_def)
  have o1: "returned ?s1 (Inr 0 :: unit + nat) = Inr [\<lparr>block_start = 0, block_end = 5, block_value = [''A'']\<rparr>,
          \<lparr>block_start = 5, block_end = 10, block_value = [''A'', ''B'']\<rparr>,
          \<lparr>block_start = 10, block_end = 15, block_value = [''B'']\<rparr>]"
    by (simp add: returned_def)
  have n2: "snd (aggregate_store listAggregator ?items ?s1) = Inr 1"
    by (simp add: aggregate_store_def createRedBlackTree_store_def createRBTree_def
        pushValueToNode_store_def emptyNodeValue_store_def applyNode_def map_size_def map_values_def
        Let_def listAggregator_def pureAggregator_def rangeBlock_def)
  have r2: "aggregate_store listAggregator ?items ?s1 =
      (fst (aggregate_store listAggregator ?items ?s1), snd (aggregate_store listAggregator ?items ?s1))"
    by simp
  note d = aggregate_store_deterministic[OF r1, of "[]"]
  from d have same: "returned (fst (aggregate_store listAggregator ?items ?s1))
            (snd (aggregate_store listAggregator ?items ?s1)) = returned ?s1 (Inr 0)"
    using r2 by blast
  from d have kept: "returned (fst (aggregate_store listAggregator ?items ?s1)) (Inr 0 :: unit + nat) =
     returned ?s1 (Inr 0)"
    using r2 by blast
  from r1 o1 same kept n2 show ?thesis by (intro conjI)
qed

text \<open>
  C10.  Build before scan.  If the pre-processor raises on some item, \<^verbatim>\<open>aggregate\<close>
  returns the exception of the first item on which it raises; the invocations it has made
  are the pre-processor calls up to that item, so the aggregation function and the
  post-processor have not been called at all, and there is no output.
\<close>

theorem aggregate_preprocessor_failure:
  assumes "item \<in> set items" and "itemPreProcessor a item = Inl e"
  shows "\<exists>xs x ys e'. items = xs @ x # ys \<and>
           (\<forall>y \<in> set xs. \<exists>b. itemPreProcessor a y = Inr b) \<and>
           itemPreProcessor a x = Inl e' \<and>
           aggregate a items hist = (hist @ map PreCall (xs @ [x]), Inl e') \<and>
           aggregated (map PreCall (xs @ [x])) = [] \<and> emitted (map PreCall (xs @ [x])) = []"
proof -
  from first_failure[of item items "itemPreProcessor a" e, OF assms] obtain xs y ys e' bs where
    s: "items = xs @ y # ys" "itemPreProcessor a y = Inl e'" "map (itemPreProcessor a) xs = map Inr bs"
    by blast
  have ok: "\<forall>z \<in> set xs. \<exists>b. itemPreProcessor a z = Inr b"
  proof
    fix z assume "z \<in> set xs"
    then have "itemPreProcessor a z \<in> set (map (itemPreProcessor a) xs)" by simp
    then have "itemPreProcessor a z \<in> set (map Inr bs)" using s(3) by simp
    then show "\<exists>b. itemPreProcessor a z = Inr b" by auto
  qed
  have "aggregate a items hist = (hist @ map PreCall (xs @ [y]), Inl e')"
    using createRedBlackTree_loop_fail[OF s(3) s(2), of 0 ys createRBTree hist] s(1)
    by (simp add: aggregate_def createRedBlackTree_def)
  then show ?thesis using s(1,2) ok aggregated_PreCalls[of "xs @ [y]"] emitted_PreCalls[of "xs @ [y]"]
    by (intro exI[of _ xs] exI[of _ y] exI[of _ ys] exI[of _ e']) simp
qed

text \<open>The theorem at a concrete input.\<close>

theorem aggregate_preprocessor_failure_witness:
  "(7, 3, ''B'') \<in> set [(0, 10, ''A''), (7, 3, ''B''), (5, 15, ''C'')] \<and>
   itemPreProcessor checkedAggregator (7, 3, ''B'') = Inl ''malformed'' \<and>
   aggregate checkedAggregator [(0, 10, ''A''), (7, 3, ''B''), (5, 15, ''C'')] [] =
     ([PreCall (0, 10, ''A''), PreCall (7, 3, ''B'')], Inl ''malformed'')"
  using aggregate_preprocessor_failure [of "(7, 3, ''B'')"
      "[(0, 10, ''A''), (7, 3, ''B''), (5, 15, ''C'')]" checkedAggregator "''malformed''" "[]"]
  by (simp add: aggregate_def createRedBlackTree_def createRBTree_def pushValueToNode_def
      emptyNodeValue_def Let_def checkedAggregator_def)

end
